theory Spec2Isabelle
  imports Main "HOL-Library.Word"
begin

unbundle bit_operations_syntax

section \<open>Guard objects\<close>

text \<open>
  \<^verbatim>\<open>cxa_guard.cpp\<close> is one source text for several builds, chosen by the macros
  \<^verbatim>\<open>__DUETTO__\<close>, \<^verbatim>\<open>__arm__\<close>, \<^verbatim>\<open>__APPLE__\<close> and \<^verbatim>\<open>__LITTLE_ENDIAN__\<close>. The
  guard object is a \<^verbatim>\<open>uint32_t\<close> (\<^verbatim>\<open>__arm__ || __DUETTO__\<close>) or a \<^verbatim>\<open>uint64_t\<close>; the
  code reads and writes it both as an integer and, through \<^verbatim>\<open>char*\<close> and a union
  with \<^verbatim>\<open>uint8_t lock[2]\<close>, byte by byte. A guard object is modelled as a machine
  word, and a byte access names the byte by its address offset and the byte order
  of the target.
\<close>

type_synonym uint8_t = "8 word"
type_synonym uint32_t = "32 word"
type_synonym uint64_t = "64 word"

datatype byte_order = LittleEndian | BigEndian

text \<open>The bit position of the byte at address offset \<open>i\<close> in an object of \<open>n\<close> bytes.\<close>

definition byte_shift :: "byte_order \<Rightarrow> nat \<Rightarrow> nat \<Rightarrow> nat" where
  "byte_shift e n i = (case e of LittleEndian \<Rightarrow> 8 * i | BigEndian \<Rightarrow> 8 * (n - 1 - i))"

text \<open>\<^verbatim>\<open>((uint8_t*)&x)[i]\<close> as an rvalue, and the object after \<^verbatim>\<open>((uint8_t*)&x)[i] = b\<close>.\<close>

definition load_byte :: "byte_order \<Rightarrow> nat \<Rightarrow> 'a::len word \<Rightarrow> uint8_t" where
  "load_byte e i x = ucast (drop_bit (byte_shift e (LENGTH('a) div 8) i) x)"

definition store_byte :: "byte_order \<Rightarrow> nat \<Rightarrow> uint8_t \<Rightarrow> 'a::len word \<Rightarrow> 'a word" where
  "store_byte e i b x =
     (let k = byte_shift e (LENGTH('a) div 8) i
      in (x AND NOT (push_bit k (mask 8))) OR push_bit k (ucast b))"

subsection \<open>The initialized flag\<close>

text \<open>
  \<^verbatim>\<open>#if __arm__ || __DUETTO__\<close>: the guard is a \<^verbatim>\<open>uint32_t\<close> and the flag is its lowest
  bit.
\<close>

definition is_initialized_bit :: "uint32_t \<Rightarrow> bool" where
  "is_initialized_bit guard_object \<longleftrightarrow> guard_object AND 1 \<noteq> 0"

definition set_initialized_bit :: "uint32_t \<Rightarrow> uint32_t" where
  "set_initialized_bit guard_object = guard_object OR 1"

text \<open>Otherwise the guard is a \<^verbatim>\<open>uint64_t\<close> and the flag is its first byte.\<close>

definition is_initialized_byte :: "byte_order \<Rightarrow> uint64_t \<Rightarrow> bool" where
  "is_initialized_byte e guard_object \<longleftrightarrow> load_byte e 0 guard_object \<noteq> 0"

definition set_initialized_byte :: "byte_order \<Rightarrow> uint64_t \<Rightarrow> uint64_t" where
  "set_initialized_byte e guard_object = store_byte e 0 1 guard_object"

subsection \<open>The lock field\<close>

text \<open>
  \<^verbatim>\<open>(defined(__APPLE__) || defined(__DUETTO__)) && !defined(__arm__)\<close>:
  \<^verbatim>\<open>lock_type\<close> is \<^verbatim>\<open>uint32_t\<close>. Under \<^verbatim>\<open>__DUETTO__\<close> (little-endian) the lock is the
  whole 32-bit guard.
\<close>

definition get_lock_duetto :: "uint32_t \<Rightarrow> uint32_t" where
  "get_lock_duetto x = ucast x"

definition set_lock_duetto :: "uint32_t \<Rightarrow> uint32_t \<Rightarrow> uint32_t" where
  "set_lock_duetto x y = ucast y"

text \<open>
  On Apple targets the lock is the upper half of the 64-bit guard when
  \<^verbatim>\<open>__LITTLE_ENDIAN__\<close>, the lower half otherwise.
\<close>

definition get_lock_apple :: "byte_order \<Rightarrow> uint64_t \<Rightarrow> uint32_t" where
  "get_lock_apple e x = (case e of LittleEndian \<Rightarrow> ucast (drop_bit 32 x) | BigEndian \<Rightarrow> ucast x)"

definition set_lock_apple :: "byte_order \<Rightarrow> uint64_t \<Rightarrow> uint32_t \<Rightarrow> uint64_t" where
  "set_lock_apple e x y = (case e of LittleEndian \<Rightarrow> push_bit 32 (ucast y) | BigEndian \<Rightarrow> ucast y)"

text \<open>
  Otherwise \<^verbatim>\<open>lock_type\<close> is \<^verbatim>\<open>bool\<close>, kept in the second byte of the guard through
  \<^verbatim>\<open>union { guard; uint8_t lock[2]; }\<close>. The two overloads (\<^verbatim>\<open>uint64_t\<close> and
  \<^verbatim>\<open>uint32_t\<close>) have the same text; \<^verbatim>\<open>set_lock\<close> starts from \<^verbatim>\<open>f = {0}\<close>.
\<close>

definition get_lock_union :: "byte_order \<Rightarrow> 'a::len word \<Rightarrow> bool" where
  "get_lock_union e x \<longleftrightarrow> load_byte e 1 x \<noteq> 0"

definition set_lock_union :: "byte_order \<Rightarrow> 'a::len word \<Rightarrow> bool \<Rightarrow> 'a word" where
  "set_lock_union e x y = store_byte e 1 (of_bool y) 0"

subsection \<open>Build configurations\<close>

text \<open>
  One record value per build: the helper functions the preprocessor selects, whether
  the pthread calls are compiled in (\<^verbatim>\<open>#ifndef __DUETTO__\<close>) and whether
  \<^verbatim>\<open>__cxa_guard_acquire\<close> takes the branch that stores the thread identity
  (\<^verbatim>\<open>defined(__APPLE__) && !defined(__arm__)\<close>). \<open>first_char\<close> is the read
  \<^verbatim>\<open>*(char*)guard_object\<close>, \<open>lock_nonzero\<close> the conversion of a \<^verbatim>\<open>lock_type\<close> to a
  condition, \<open>lock_true\<close> the conversion of \<^verbatim>\<open>true\<close> to \<^verbatim>\<open>lock_type\<close>.
\<close>

record ('g, 'l) guard_config =
  uses_pthread :: bool
  stores_thread_id :: bool
  first_char :: "'g \<Rightarrow> uint8_t"
  is_initialized :: "'g \<Rightarrow> bool"
  set_initialized :: "'g \<Rightarrow> 'g"
  get_lock :: "'g \<Rightarrow> 'l"
  set_lock :: "'g \<Rightarrow> 'l \<Rightarrow> 'g"
  lock_nonzero :: "'l \<Rightarrow> bool"
  lock_true :: "'l"

text \<open>\<^verbatim>\<open>__DUETTO__\<close>: 32-bit guard, little-endian, no threads.\<close>

definition duetto :: "(uint32_t, uint32_t) guard_config" where
  "duetto =
     \<lparr>uses_pthread = False, stores_thread_id = False,
      first_char = load_byte LittleEndian 0,
      is_initialized = is_initialized_bit, set_initialized = set_initialized_bit,
      get_lock = get_lock_duetto, set_lock = set_lock_duetto,
      lock_nonzero = (\<lambda>l. l \<noteq> 0), lock_true = 1\<rparr>"

text \<open>\<^verbatim>\<open>__APPLE__\<close> without \<^verbatim>\<open>__arm__\<close>: 64-bit guard, the lock holds a thread identity.\<close>

definition apple :: "byte_order \<Rightarrow> (uint64_t, uint32_t) guard_config" where
  "apple e =
     \<lparr>uses_pthread = True, stores_thread_id = True,
      first_char = load_byte e 0,
      is_initialized = is_initialized_byte e, set_initialized = set_initialized_byte e,
      get_lock = get_lock_apple e, set_lock = set_lock_apple e,
      lock_nonzero = (\<lambda>l. l \<noteq> 0), lock_true = 1\<rparr>"

text \<open>
  \<^verbatim>\<open>__arm__\<close>: 32-bit guard, boolean lock, either byte order. \<^verbatim>\<open>is_initialized\<close> and
  \<^verbatim>\<open>set_initialized\<close> use bit 0 of the word, while \<^verbatim>\<open>__cxa_guard_acquire\<close> reads the
  first byte and the lock is the second byte; the byte order of the target decides
  which bits of the word those bytes are.
\<close>

definition arm :: "byte_order \<Rightarrow> (uint32_t, bool) guard_config" where
  "arm e =
     \<lparr>uses_pthread = True, stores_thread_id = False,
      first_char = load_byte e 0,
      is_initialized = is_initialized_bit, set_initialized = set_initialized_bit,
      get_lock = get_lock_union e, set_lock = set_lock_union e,
      lock_nonzero = (\<lambda>l. l), lock_true = True\<rparr>"

text \<open>Every other target: 64-bit guard, boolean lock.\<close>

definition generic :: "byte_order \<Rightarrow> (uint64_t, bool) guard_config" where
  "generic e =
     \<lparr>uses_pthread = True, stores_thread_id = False,
      first_char = load_byte e 0,
      is_initialized = is_initialized_byte e, set_initialized = set_initialized_byte e,
      get_lock = get_lock_union e, set_lock = set_lock_union e,
      lock_nonzero = (\<lambda>l. l), lock_true = True\<rparr>"

section \<open>The three entry points\<close>

text \<open>
  Between two pthread calls \<^verbatim>\<open>__cxa_guard_acquire\<close> runs with the mutex held. Such a
  stretch ends in one of three ways: the function is about to return \<open>result\<close> with the
  guard as given, it calls \<^verbatim>\<open>pthread_cond_wait\<close>, or it calls \<^verbatim>\<open>abort_message\<close>.
\<close>

datatype 'g stretch = Return int 'g | Wait | AbortMessage string

text \<open>
  The tail of the branch without thread identity:
  \<^verbatim>\<open>result = *initialized == 0; if (result) set_lock(*guard_object, true);\<close>
\<close>

definition acquire_claim :: "('g, 'l) guard_config \<Rightarrow> 'g \<Rightarrow> 'g stretch" where
  "acquire_claim T g =
     (let result = (first_char T g = 0)
      in if result then Return 1 (set_lock T g (lock_true T)) else Return 0 g)"

text \<open>
  One test of \<^verbatim>\<open>while (get_lock(*guard_object)) pthread_cond_wait(...)\<close>, followed by the
  tail when the loop ends.
\<close>

definition acquire_loop :: "('g, 'l) guard_config \<Rightarrow> 'g \<Rightarrow> 'g stretch" where
  "acquire_loop T g = (if lock_nonzero T (get_lock T g) then Wait else acquire_claim T g)"

text \<open>From the entry of \<^verbatim>\<open>__cxa_guard_acquire\<close> (mutex taken) to the first wait or the return.\<close>

definition acquire_enter :: "('g, 'l) guard_config \<Rightarrow> 'l \<Rightarrow> 'g \<Rightarrow> 'g stretch" where
  "acquire_enter T tid g =
     (let result = (first_char T g = 0)
      in if result then
           (if stores_thread_id T then
              (let lock = get_lock T g
               in if lock_nonzero T lock then
                    (if lock = tid then AbortMessage ''__cxa_guard_acquire detected deadlock''
                     else Wait)
                  else Return 1 (set_lock T g tid))
            else if uses_pthread T then acquire_loop T g
            else acquire_claim T g)
         else Return 0 g)"

text \<open>
  From the return of a successful \<^verbatim>\<open>pthread_cond_wait\<close>, which finds the guard as the
  other threads left it, to the next wait or the return.
\<close>

definition acquire_wake :: "('g, 'l) guard_config \<Rightarrow> 'l \<Rightarrow> 'g \<Rightarrow> 'g stretch" where
  "acquire_wake T tid g =
     (if stores_thread_id T then
        (let lock = get_lock T g
         in if lock_nonzero T lock then Wait
            else (let result = (\<not> is_initialized T g)
                  in if result then Return 1 (set_lock T g tid) else Return 0 g))
      else acquire_loop T g)"

text \<open>
  The pthread calls are the environment. Each call of an entry point is given the
  return code of its \<^verbatim>\<open>pthread_mutex_lock\<close>, of its \<^verbatim>\<open>pthread_mutex_unlock\<close> and of
  its \<^verbatim>\<open>pthread_cond_broadcast\<close>, and for \<^verbatim>\<open>pthread_cond_wait\<close> the list of its
  returns: each with its return code and the guard that the waker left. When the
  list is used up the thread is never woken again. An entry point yields its outcome
  and the pthread calls that returned, in order, with their return codes.
\<close>

datatype pthread_call = MutexLock | CondWait | MutexUnlock | CondBroadcast

record 'g pthread_env =
  mutex_lock_rc :: int
  cond_wait_returns :: "(int \<times> 'g) list"
  mutex_unlock_rc :: int
  cond_broadcast_rc :: int

datatype ('r, 'g) outcome = Returned 'r 'g | Aborted string | Blocked

type_synonym call_log = "(pthread_call \<times> int) list"

fun acquire_wait :: "('g, 'l) guard_config \<Rightarrow> 'l \<Rightarrow> (int \<times> 'g) list \<Rightarrow> 'g stretch \<times> call_log" where
  "acquire_wait T tid [] = (Wait, [])"
| "acquire_wait T tid ((rc, g) # ws) =
     (if rc \<noteq> 0 then
        (AbortMessage ''__cxa_guard_acquire condition variable wait failed'', [(CondWait, rc)])
      else
        (case acquire_wake T tid g of
           Wait \<Rightarrow> (case acquire_wait T tid ws of (s, l) \<Rightarrow> (s, (CondWait, rc) # l))
         | Return r g' \<Rightarrow> (Return r g', [(CondWait, rc)])
         | AbortMessage m \<Rightarrow> (AbortMessage m, [(CondWait, rc)])))"

definition acquire_locked ::
  "('g, 'l) guard_config \<Rightarrow> 'l \<Rightarrow> (int \<times> 'g) list \<Rightarrow> 'g \<Rightarrow> 'g stretch \<times> call_log" where
  "acquire_locked T tid ws g =
     (case acquire_enter T tid g of
        Wait \<Rightarrow> acquire_wait T tid ws
      | Return r g' \<Rightarrow> (Return r g', [])
      | AbortMessage m \<Rightarrow> (AbortMessage m, []))"

definition cxa_guard_acquire ::
  "('g, 'l) guard_config \<Rightarrow> 'l \<Rightarrow> 'g pthread_env \<Rightarrow> 'g \<Rightarrow> (int, 'g) outcome \<times> call_log" where
  "cxa_guard_acquire T tid env guard_object =
     (if \<not> uses_pthread T then
        (case acquire_enter T tid guard_object of
           Return r g' \<Rightarrow> (Returned r g', [])
         | Wait \<Rightarrow> (Blocked, [])
         | AbortMessage m \<Rightarrow> (Aborted m, []))
      else if mutex_lock_rc env \<noteq> 0 then
        (Aborted ''__cxa_guard_acquire failed to acquire mutex'',
         [(MutexLock, mutex_lock_rc env)])
      else
        (case acquire_locked T tid (cond_wait_returns env) guard_object of
           (Return r g', l) \<Rightarrow>
             if mutex_unlock_rc env \<noteq> 0 then
               (Aborted ''__cxa_guard_acquire failed to release mutex'',
                (MutexLock, 0) # l @ [(MutexUnlock, mutex_unlock_rc env)])
             else (Returned r g', (MutexLock, 0) # l @ [(MutexUnlock, 0)])
         | (Wait, l) \<Rightarrow> (Blocked, (MutexLock, 0) # l)
         | (AbortMessage m, l) \<Rightarrow> (Aborted m, (MutexLock, 0) # l)))"

text \<open>
  The values the guard takes while \<^verbatim>\<open>__cxa_guard_release\<close> holds the mutex:
  \<^verbatim>\<open>*guard_object = 0; set_initialized(guard_object);\<close>
\<close>

definition release_stores :: "('g::zero, 'l) guard_config \<Rightarrow> 'g \<Rightarrow> 'g list" where
  "release_stores T guard_object = [0, set_initialized T 0]"

definition cxa_guard_release ::
  "('g::zero, 'l) guard_config \<Rightarrow> 'g pthread_env \<Rightarrow> 'g \<Rightarrow> (unit, 'g) outcome \<times> call_log" where
  "cxa_guard_release T env guard_object =
     (if \<not> uses_pthread T then (Returned () (last (release_stores T guard_object)), [])
      else if mutex_lock_rc env \<noteq> 0 then
        (Aborted ''__cxa_guard_release failed to acquire mutex'',
         [(MutexLock, mutex_lock_rc env)])
      else if mutex_unlock_rc env \<noteq> 0 then
        (Aborted ''__cxa_guard_release failed to release mutex'',
         [(MutexLock, 0), (MutexUnlock, mutex_unlock_rc env)])
      else if cond_broadcast_rc env \<noteq> 0 then
        (Aborted ''__cxa_guard_release failed to broadcast condition variable'',
         [(MutexLock, 0), (MutexUnlock, 0), (CondBroadcast, cond_broadcast_rc env)])
      else
        (Returned () (last (release_stores T guard_object)),
         [(MutexLock, 0), (MutexUnlock, 0), (CondBroadcast, 0)]))"

text \<open>\<^verbatim>\<open>__cxa_guard_abort\<close>: the one store is \<^verbatim>\<open>*guard_object = 0\<close>.\<close>

definition cxa_guard_abort ::
  "('g::zero, 'l) guard_config \<Rightarrow> 'g pthread_env \<Rightarrow> 'g \<Rightarrow> (unit, 'g) outcome \<times> call_log" where
  "cxa_guard_abort T env guard_object =
     (if \<not> uses_pthread T then (Returned () 0, [])
      else if mutex_lock_rc env \<noteq> 0 then
        (Aborted ''__cxa_guard_abort failed to acquire mutex'',
         [(MutexLock, mutex_lock_rc env)])
      else if mutex_unlock_rc env \<noteq> 0 then
        (Aborted ''__cxa_guard_abort failed to release mutex'',
         [(MutexLock, 0), (MutexUnlock, mutex_unlock_rc env)])
      else if cond_broadcast_rc env \<noteq> 0 then
        (Aborted ''__cxa_guard_abort failed to broadcast condition variable'',
         [(MutexLock, 0), (MutexUnlock, 0), (CondBroadcast, cond_broadcast_rc env)])
      else (Returned () 0, [(MutexLock, 0), (MutexUnlock, 0), (CondBroadcast, 0)]))"

section \<open>Properties of the entry points\<close>

text \<open>
  The mutex and broadcast calls of one entry-point call all succeed. (Nothing is said
  of \<^verbatim>\<open>pthread_cond_wait\<close>.)
\<close>

definition pthread_ok :: "'g pthread_env \<Rightarrow> bool" where
  "pthread_ok env \<longleftrightarrow>
     mutex_lock_rc env = 0 \<and> mutex_unlock_rc env = 0 \<and> cond_broadcast_rc env = 0"

text \<open>The environment in which they do, with the given returns of \<^verbatim>\<open>pthread_cond_wait\<close>.\<close>

definition all_succeed :: "(int \<times> 'g) list \<Rightarrow> 'g pthread_env" where
  "all_succeed ws =
     \<lparr>mutex_lock_rc = 0, cond_wait_returns = ws, mutex_unlock_rc = 0, cond_broadcast_rc = 0\<rparr>"

text \<open>
  The value that \<^verbatim>\<open>__cxa_guard_acquire\<close> stores as the lock for thread \<open>tid\<close>, and the
  guard after it has granted the initialization to that thread:
  \<^verbatim>\<open>set_lock(*guard_object, id)\<close> or \<^verbatim>\<open>set_lock(*guard_object, true)\<close>.
\<close>

definition lock_value :: "('g, 'l) guard_config \<Rightarrow> 'l \<Rightarrow> 'l" where
  "lock_value T tid = (if stores_thread_id T then tid else lock_true T)"

definition granted :: "('g, 'l) guard_config \<Rightarrow> 'l \<Rightarrow> 'g \<Rightarrow> 'g" where
  "granted T tid g = set_lock T g (lock_value T tid)"

text \<open>The guard after \<^verbatim>\<open>__cxa_guard_release\<close>.\<close>

definition released :: "('g::zero, 'l) guard_config \<Rightarrow> 'g" where
  "released T = set_initialized T 0"

text \<open>
  Acquire, abort, acquire again on a guard that starts all-zero: both calls of
  \<^verbatim>\<open>__cxa_guard_acquire\<close> return 1 and the abort leaves the guard all-zero.
\<close>

definition retry_after_abort ::
  "('g::zero, 'l) guard_config \<Rightarrow> 'l \<Rightarrow> 'l \<Rightarrow> 'g pthread_env \<Rightarrow> 'g pthread_env \<Rightarrow> 'g pthread_env \<Rightarrow> bool"
  where
  "retry_after_abort T tid tid' env env' env'' \<longleftrightarrow>
     (pthread_ok env \<and> pthread_ok env' \<and> pthread_ok env'' \<longrightarrow>
      fst (cxa_guard_acquire T tid env 0) = Returned 1 (granted T tid 0) \<and>
      fst (cxa_guard_abort T env' (granted T tid 0)) = Returned () 0 \<and>
      fst (cxa_guard_acquire T tid' env'' 0) = Returned 1 (granted T tid' 0))"

text \<open>
  A sequence of calls of \<^verbatim>\<open>__cxa_guard_acquire\<close> on one guard, each by its own thread
  and with its own pthread returns; a call that does not return leaves the guard to
  the next call as it found it.
\<close>

fun acquire_calls ::
  "('g, 'l) guard_config \<Rightarrow> ('l \<times> 'g pthread_env) list \<Rightarrow> 'g \<Rightarrow> ((int, 'g) outcome \<times> call_log) list"
  where
  "acquire_calls T [] g = []"
| "acquire_calls T ((tid, env) # cs) g =
     (let r = cxa_guard_acquire T tid env g
      in r # acquire_calls T cs (case fst r of Returned _ g' \<Rightarrow> g' | _ \<Rightarrow> g))"

text \<open>
  After \<^verbatim>\<open>__cxa_guard_release\<close> has returned, every call in a sequence of calls of
  \<^verbatim>\<open>__cxa_guard_acquire\<close> returns 0, leaves the guard as it is and has not called
  \<^verbatim>\<open>pthread_cond_wait\<close>.
\<close>

definition fast_path_after_release ::
  "('g::zero, 'l) guard_config \<Rightarrow> 'g pthread_env \<Rightarrow> 'g \<Rightarrow> ('l \<times> 'g pthread_env) list \<Rightarrow> bool" where
  "fast_path_after_release T env g cs \<longleftrightarrow>
     (pthread_ok env \<and> (\<forall>c \<in> set cs. pthread_ok (snd c)) \<longrightarrow>
      fst (cxa_guard_release T env g) = Returned () (released T) \<and>
      length (acquire_calls T cs (released T)) = length cs \<and>
      (\<forall>r \<in> set (acquire_calls T cs (released T)).
         fst r = Returned 0 (released T) \<and> CondWait \<notin> fst ` set (snd r)))"

text \<open>The diagnostics of the source, by entry point and failing pthread call.\<close>

definition diagnostic :: "string \<Rightarrow> pthread_call \<Rightarrow> string" where
  "diagnostic name c =
     name @ (case c of
               MutexLock \<Rightarrow> '' failed to acquire mutex''
             | CondWait \<Rightarrow> '' condition variable wait failed''
             | MutexUnlock \<Rightarrow> '' failed to release mutex''
             | CondBroadcast \<Rightarrow> '' failed to broadcast condition variable'')"

text \<open>
  A call whose log holds a pthread call with a nonzero return code has ended in
  \<^verbatim>\<open>abort_message\<close> with the diagnostic of that entry point and that pthread call.
\<close>

definition failure_is_fatal :: "string \<Rightarrow> ('r, 'g) outcome \<times> call_log \<Rightarrow> bool" where
  "failure_is_fatal name r \<longleftrightarrow>
     (\<forall>c \<in> set (snd r). snd c \<noteq> 0 \<longrightarrow> fst r = Aborted (diagnostic name (fst c)))"

text \<open>
  The guard as a returning call of \<^verbatim>\<open>__cxa_guard_acquire\<close> last found it: at its
  entry when it has not waited, else as its last \<^verbatim>\<open>pthread_cond_wait\<close> returned it.
\<close>

definition waits_done :: "call_log \<Rightarrow> nat" where
  "waits_done l = length (filter (\<lambda>c. fst c = CondWait) l)"

definition found :: "'g pthread_env \<Rightarrow> call_log \<Rightarrow> 'g \<Rightarrow> 'g" where
  "found env l g = (g # map snd (cond_wait_returns env)) ! waits_done l"

text \<open>
  A returning call of \<^verbatim>\<open>__cxa_guard_acquire\<close> leaves the initialized flag, read either
  way, as it found it; it leaves the guard as it found it when it returns 0, and
  otherwise has written it once, through \<^verbatim>\<open>set_lock\<close>.
\<close>

definition acquire_keeps_initialized ::
  "('g, 'l) guard_config \<Rightarrow> 'l \<Rightarrow> 'g pthread_env \<Rightarrow> 'g \<Rightarrow> bool" where
  "acquire_keeps_initialized T tid env g \<longleftrightarrow>
     (case cxa_guard_acquire T tid env g of
        (Returned r g', l) \<Rightarrow>
          is_initialized T g' = is_initialized T (found env l g) \<and>
          first_char T g' = first_char T (found env l g) \<and>
          (r = 0 \<longrightarrow> g' = found env l g) \<and>
          (r \<noteq> 0 \<longrightarrow> g' = granted T tid (found env l g))
      | _ \<Rightarrow> True)"

text \<open>
  The part of it that does not mention the flag: a returning call leaves the guard
  as it found it when it returns 0, and otherwise has written it once, through
  \<^verbatim>\<open>set_lock\<close> with the caller's lock value.
\<close>

definition acquire_writes_lock ::
  "('g, 'l) guard_config \<Rightarrow> 'l \<Rightarrow> 'g pthread_env \<Rightarrow> 'g \<Rightarrow> bool" where
  "acquire_writes_lock T tid env g \<longleftrightarrow>
     (case cxa_guard_acquire T tid env g of
        (Returned r g', l) \<Rightarrow>
          (r = 0 \<longrightarrow> g' = found env l g) \<and>
          (r \<noteq> 0 \<longrightarrow> g' = set_lock T (found env l g) (lock_value T tid))
      | _ \<Rightarrow> True)"

text \<open>
  What holds of it under \<^verbatim>\<open>__DUETTO__\<close>: the guard is unchanged when the call returns
  0, and is the word 1, found with a zero first byte, when the call returns 1.
\<close>

definition acquire_marks_duetto :: "uint32_t \<Rightarrow> uint32_t pthread_env \<Rightarrow> uint32_t \<Rightarrow> bool" where
  "acquire_marks_duetto tid env g \<longleftrightarrow>
     (case cxa_guard_acquire duetto tid env g of
        (Returned r g', l) \<Rightarrow>
          (r = 0 \<longrightarrow> g' = g) \<and>
          (r = 1 \<longrightarrow> g' = 1 \<and> first_char duetto g = 0 \<and> \<not> is_initialized duetto g \<and>
             is_initialized duetto g')
      | _ \<Rightarrow> True)"

text \<open>
  The three states of a guard: all-zero; granted, where the guard holds a set lock
  and nothing else; released.
\<close>

datatype guard_state = UNINITIALIZED | IN_PROGRESS | INITIALIZED

definition guard_state :: "('g::zero, 'l) guard_config \<Rightarrow> 'g \<Rightarrow> guard_state option" where
  "guard_state T g =
     (if g = 0 then Some UNINITIALIZED
      else if g = released T then Some INITIALIZED
      else if lock_nonzero T (get_lock T g) \<and> g = set_lock T g (get_lock T g)
        then Some IN_PROGRESS
      else None)"

text \<open>
  Granted on an all-zero guard, \<^verbatim>\<open>__cxa_guard_acquire\<close> leaves the guard in progress:
  lock set, initialized flag clear.
\<close>

definition grant_in_progress :: "('g::zero, 'l) guard_config \<Rightarrow> 'l \<Rightarrow> 'g pthread_env \<Rightarrow> bool" where
  "grant_in_progress T tid env \<longleftrightarrow>
     (pthread_ok env \<and> lock_nonzero T (lock_value T tid) \<longrightarrow>
      fst (cxa_guard_acquire T tid env 0) = Returned 1 (granted T tid 0) \<and>
      guard_state T (granted T tid 0) = Some IN_PROGRESS \<and>
      lock_nonzero T (get_lock T (granted T tid 0)) \<and>
      \<not> is_initialized T (granted T tid 0) \<and>
      first_char T (granted T tid 0) = 0)"

text \<open>
  While the guard stays as granted to \<open>tid\<close> (every return of \<^verbatim>\<open>pthread_cond_wait\<close>
  shows it so), a call of \<^verbatim>\<open>__cxa_guard_acquire\<close> by any thread does not return.
\<close>

fun returns :: "('r, 'g) outcome \<Rightarrow> bool" where
  "returns (Returned r g) = True"
| "returns (Aborted m) = False"
| "returns Blocked = False"

definition held_until_release ::
  "('g::zero, 'l) guard_config \<Rightarrow> 'l \<Rightarrow> 'l \<Rightarrow> 'g pthread_env \<Rightarrow> bool" where
  "held_until_release T tid tid' env \<longleftrightarrow>
     (lock_nonzero T (lock_value T tid) \<and>
      (\<forall>w \<in> set (cond_wait_returns env). snd w = granted T tid 0) \<longrightarrow>
      \<not> returns (fst (cxa_guard_acquire T tid' env (granted T tid 0))))"

text \<open>Each entry point takes a guard in one of the three states to one of them.\<close>

definition keeps_three_states ::
  "('g::zero, 'l) guard_config \<Rightarrow> 'l \<Rightarrow> 'g pthread_env \<Rightarrow> 'g \<Rightarrow> bool" where
  "keeps_three_states T tid env g \<longleftrightarrow>
     (case cxa_guard_acquire T tid env g of
        (Returned r g', l) \<Rightarrow> guard_state T (found env l g) \<noteq> None \<longrightarrow> guard_state T g' \<noteq> None
      | _ \<Rightarrow> True) \<and>
     (case fst (cxa_guard_release T env g) of
        Returned u g' \<Rightarrow> guard_state T g' = Some INITIALIZED
      | _ \<Rightarrow> True) \<and>
     (case fst (cxa_guard_abort T env g) of
        Returned u g' \<Rightarrow> guard_state T g' = Some UNINITIALIZED
      | _ \<Rightarrow> True)"

text \<open>
  The bits of a guard beside its initialized field: the word with bit 0 cleared
  for a 32-bit guard, with its first byte cleared for a 64-bit guard.
\<close>

definition beside_flag_32 :: "uint32_t \<Rightarrow> uint32_t" where
  "beside_flag_32 g = g AND NOT 1"

definition beside_flag_64 :: "byte_order \<Rightarrow> uint64_t \<Rightarrow> uint64_t" where
  "beside_flag_64 e g = store_byte e 0 0 g"

text \<open>
  \<^verbatim>\<open>__cxa_guard_release\<close> returns with the initialized flag set and every bit beside
  it clear, and none of the values the guard takes while release holds the mutex
  has the flag set with a bit beside it set. \<open>beside\<close> gives the bits beside the flag.
\<close>

definition release_sets_flag ::
  "('g::zero, 'l) guard_config \<Rightarrow> ('g \<Rightarrow> 'g) \<Rightarrow> 'g pthread_env \<Rightarrow> 'g \<Rightarrow> bool" where
  "release_sets_flag T beside env g \<longleftrightarrow>
     (pthread_ok env \<longrightarrow> fst (cxa_guard_release T env g) = Returned () (released T)) \<and>
     is_initialized T (released T) \<and> beside (released T) = 0 \<and>
     (\<forall>v \<in> set (release_stores T g). is_initialized T v \<longrightarrow> beside v = 0)"

text \<open>
  The same of the lock field as \<^verbatim>\<open>get_lock\<close> reads it: clear after release, and never
  set together with the flag while release holds the mutex.
\<close>

definition release_clears_lock :: "('g::zero, 'l) guard_config \<Rightarrow> 'g \<Rightarrow> bool" where
  "release_clears_lock T g \<longleftrightarrow>
     \<not> lock_nonzero T (get_lock T (released T)) \<and>
     (\<forall>v \<in> set (release_stores T g). is_initialized T v \<longrightarrow> \<not> lock_nonzero T (get_lock T v))"

section \<open>Threads racing for one guard\<close>

text \<open>
  Several threads each call \<^verbatim>\<open>__cxa_guard_acquire\<close> once on the same guard, and the
  thread that is granted the initialization later calls \<^verbatim>\<open>__cxa_guard_release\<close>.
  Every access to the guard is made with the mutex held (under \<^verbatim>\<open>__DUETTO__\<close>, by a
  program without threads), so an execution is an interleaving of the stretches
  between pthread calls. A thread has not called yet (\<open>Idle\<close>), is inside
  \<^verbatim>\<open>pthread_cond_wait\<close> (\<open>Waiting\<close>), has returned from acquire with a value (\<open>Got\<close>),
  has returned 1 and then called release (\<open>Released\<close>), or has been ended by
  \<^verbatim>\<open>abort_message\<close> (\<open>Dead\<close>).
\<close>

datatype thread_state = Idle | Waiting | Got int | Released | Dead

record 'g system =
  guard :: 'g
  threads :: "thread_state list"

text \<open>
  \<open>Call i\<close>: thread \<open>i\<close> enters \<^verbatim>\<open>__cxa_guard_acquire\<close> and runs to its first wait or to
  its return. \<open>Wake i\<close>: thread \<open>i\<close> returns from \<^verbatim>\<open>pthread_cond_wait\<close>, woken by a
  broadcast or spuriously, and runs to its next wait or to its return.
  \<open>Release i\<close>: thread \<open>i\<close>, granted the initialization, runs
  \<^verbatim>\<open>__cxa_guard_release\<close>. The pthread calls are taken to succeed. An event that its
  thread cannot take leaves the system as it is.
\<close>

datatype event = Call nat | Wake nat | Release nat

definition after_stretch :: "'g system \<Rightarrow> nat \<Rightarrow> 'g stretch \<Rightarrow> 'g system" where
  "after_stretch s i st =
     (case st of
        Return r g' \<Rightarrow> s\<lparr>guard := g', threads := (threads s)[i := Got r]\<rparr>
      | Wait \<Rightarrow> s\<lparr>threads := (threads s)[i := Waiting]\<rparr>
      | AbortMessage m \<Rightarrow> s\<lparr>threads := (threads s)[i := Dead]\<rparr>)"

fun step :: "('g::zero, 'l) guard_config \<Rightarrow> 'l list \<Rightarrow> 'g system \<Rightarrow> event \<Rightarrow> 'g system" where
  "step T tids s (Call i) =
     (if i < length (threads s) \<and> threads s ! i = Idle
      then after_stretch s i (acquire_enter T (tids ! i) (guard s)) else s)"
| "step T tids s (Wake i) =
     (if i < length (threads s) \<and> threads s ! i = Waiting
      then after_stretch s i (acquire_wake T (tids ! i) (guard s)) else s)"
| "step T tids s (Release i) =
     (if i < length (threads s) \<and> threads s ! i = Got 1
      then s\<lparr>guard := last (release_stores T (guard s)), threads := (threads s)[i := Released]\<rparr>
      else s)"

fun run :: "('g::zero, 'l) guard_config \<Rightarrow> 'l list \<Rightarrow> event list \<Rightarrow> 'g system \<Rightarrow> 'g system" where
  "run T tids [] s = s"
| "run T tids (ev # evs) s = run T tids evs (step T tids s ev)"

text \<open>
  The start of the race, with the guard all-zero, and the schedule that lets every
  thread call, the grantee release, and every waiter wake.
\<close>

definition init :: "nat \<Rightarrow> ('g::zero) system" where
  "init n = \<lparr>guard = 0, threads = replicate n Idle\<rparr>"

definition finish :: "nat \<Rightarrow> event list" where
  "finish n = map Call [0..<n] @ map Release [0..<n] @ map Wake [0..<n]"

text \<open>The thread's call of \<^verbatim>\<open>__cxa_guard_acquire\<close> has returned 1, has returned 0.\<close>

fun got_1 :: "thread_state \<Rightarrow> bool" where
  "got_1 (Got r) = (r = 1)"
| "got_1 Released = True"
| "got_1 _ = False"

fun got_0 :: "thread_state \<Rightarrow> bool" where
  "got_0 (Got r) = (r = 0)"
| "got_0 _ = False"

definition all_returned :: "'g system \<Rightarrow> bool" where
  "all_returned s \<longleftrightarrow> (\<forall>t \<in> set (threads s). got_0 t \<or> got_1 t)"

definition exactly_one_grant :: "'g system \<Rightarrow> bool" where
  "exactly_one_grant s \<longleftrightarrow>
     length (filter got_1 (threads s)) = 1 \<and>
     length (filter got_0 (threads s)) = length (threads s) - 1"

text \<open>
  The lock value stored for each thread is one that reads as set, and where the
  lock holds the thread identity the identities differ from thread to thread.
\<close>

definition thread_ids_ok :: "('g, 'l) guard_config \<Rightarrow> 'l list \<Rightarrow> bool" where
  "thread_ids_ok T tids \<longleftrightarrow>
     (\<forall>t \<in> set tids. lock_nonzero T (lock_value T t)) \<and> (stores_thread_id T \<longrightarrow> distinct tids)"

text \<open>
  The race of the threads \<open>tids\<close> under the schedule \<open>evs\<close>: at most one call has
  returned 1 and no thread has been ended; once every call has returned, exactly one
  has returned 1 and the others 0; once the grantee has released, the guard is the
  released one, with the initialized flag set; and the schedule can be completed so
  that every call has returned and the grantee has released.
\<close>

definition races_once :: "('g::zero, 'l) guard_config \<Rightarrow> 'l list \<Rightarrow> event list \<Rightarrow> bool" where
  "races_once T tids evs \<longleftrightarrow>
     (tids \<noteq> [] \<and> thread_ids_ok T tids \<longrightarrow>
      (let s = run T tids evs (init (length tids)); s' = run T tids (finish (length tids)) s
       in length (filter got_1 (threads s)) \<le> 1 \<and> Dead \<notin> set (threads s) \<and>
          (all_returned s \<longrightarrow> exactly_one_grant s) \<and>
          (Released \<in> set (threads s) \<longrightarrow> guard s = released T \<and> is_initialized T (guard s)) \<and>
          all_returned s' \<and> exactly_one_grant s' \<and> Released \<in> set (threads s') \<and>
          is_initialized T (guard s')))"

text \<open>
  What the proof needs of a build: how the stretches of acquire behave on the
  all-zero guard, on a guard granted to another thread and on the released guard;
  and the invariant of the race.
\<close>

definition race_ready :: "('g::zero, 'l) guard_config \<Rightarrow> 'l list \<Rightarrow> bool" where
  "race_ready T tids \<longleftrightarrow>
     (\<forall>t. acquire_enter T t 0 = Return 1 (granted T t 0)) \<and>
     (\<forall>j k. j < length tids \<and> k < length tids \<and> j \<noteq> k \<longrightarrow>
        (acquire_enter T (tids ! j) (granted T (tids ! k) 0) = Wait \<and> uses_pthread T \<or>
         acquire_enter T (tids ! j) (granted T (tids ! k) 0) = Return 0 (granted T (tids ! k) 0)) \<and>
        acquire_wake T (tids ! j) (granted T (tids ! k) 0) = Wait) \<and>
     (\<forall>t. acquire_enter T t (released T) = Return 0 (released T)) \<and>
     (uses_pthread T \<longrightarrow> (\<forall>t. acquire_wake T t (released T) = Return 0 (released T)))"

definition others_wait :: "thread_state list \<Rightarrow> nat \<Rightarrow> bool" where
  "others_wait ts k \<longleftrightarrow> (\<forall>j < length ts. j \<noteq> k \<longrightarrow> ts ! j \<in> {Idle, Waiting, Got 0})"

definition race_inv :: "('g::zero, 'l) guard_config \<Rightarrow> 'l list \<Rightarrow> 'g system \<Rightarrow> bool" where
  "race_inv T tids s \<longleftrightarrow>
     length (threads s) = length tids \<and>
     (\<not> uses_pthread T \<longrightarrow> Waiting \<notin> set (threads s)) \<and>
     (guard s = 0 \<and> (\<forall>t \<in> set (threads s). t = Idle) \<or>
      (\<exists>k < length tids. guard s = granted T (tids ! k) 0 \<and> threads s ! k = Got 1 \<and>
         others_wait (threads s) k) \<or>
      (\<exists>k < length tids. guard s = released T \<and> threads s ! k = Released \<and>
         others_wait (threads s) k))"

section \<open>Bytes of a guard\<close>

lemma bit_load_byte:
  "bit (load_byte e i (x::'a::len word)) n \<longleftrightarrow>
     n < 8 \<and> bit x (byte_shift e (LENGTH('a) div 8) i + n)"
  by (auto simp add: load_byte_def bit_simps)

lemma bit_store_byte:
  "bit (store_byte e i b (x::'a::len word)) n \<longleftrightarrow>
     n < LENGTH('a) \<and>
     (let k = byte_shift e (LENGTH('a) div 8) i
      in if k \<le> n \<and> n < k + 8 then bit b (n - k) else bit x n)"
  by (auto simp add: store_byte_def bit_simps Let_def dest: bit_imp_le_length)

lemma load_store_same:
  "8 * (i + 1) \<le> LENGTH('a) \<Longrightarrow> load_byte e i (store_byte e i b (x::'a::len word)) = b"
  by (rule bit_word_eqI, cases e; auto simp add: bit_load_byte bit_store_byte byte_shift_def)

lemma load_store_other:
  "8 * (i + 1) \<le> LENGTH('a) \<Longrightarrow> 8 * (j + 1) \<le> LENGTH('a) \<Longrightarrow> i \<noteq> j \<Longrightarrow>
   load_byte e i (store_byte e j b (x::'a::len word)) = load_byte e i x"
  by (rule bit_word_eqI, cases e;
      auto simp add: bit_load_byte bit_store_byte byte_shift_def Let_def)

lemma load_byte_zero: "load_byte e i 0 = 0"
  by (simp add: load_byte_def)

section \<open>The all-zero guard\<close>

lemma first_char_zero:
  "first_char duetto 0 = 0" "first_char (apple e) 0 = 0"
  "first_char (arm e) 0 = 0" "first_char (generic e) 0 = 0"
  by (simp_all add: duetto_def apple_def arm_def generic_def load_byte_zero)

lemma lock_zero:
  "\<not> lock_nonzero duetto (get_lock duetto 0)"
  "\<not> lock_nonzero (apple e) (get_lock (apple e) 0)"
  "\<not> lock_nonzero (arm e) (get_lock (arm e) 0)"
  "\<not> lock_nonzero (generic e) (get_lock (generic e) 0)"
  by (simp_all add: duetto_def apple_def arm_def generic_def get_lock_duetto_def
      get_lock_apple_def get_lock_union_def load_byte_zero split: byte_order.split)

lemma acquire_enter_zero:
  "first_char T 0 = 0 \<Longrightarrow> \<not> lock_nonzero T (get_lock T 0) \<Longrightarrow>
   acquire_enter T tid 0 = Return 1 (granted T tid 0)"
  by (simp add: acquire_enter_def acquire_loop_def acquire_claim_def granted_def lock_value_def)

lemma acquire_zero:
  "first_char T 0 = 0 \<Longrightarrow> \<not> lock_nonzero T (get_lock T 0) \<Longrightarrow> pthread_ok env \<Longrightarrow>
   fst (cxa_guard_acquire T tid env 0) = Returned 1 (granted T tid 0)"
  by (simp add: cxa_guard_acquire_def acquire_locked_def acquire_enter_zero pthread_ok_def)

lemma abort_ok: "pthread_ok env \<Longrightarrow> fst (cxa_guard_abort T env g) = Returned () 0"
  by (simp add: cxa_guard_abort_def pthread_ok_def)

lemma retry_after_abort_zero:
  "first_char T 0 = 0 \<Longrightarrow> \<not> lock_nonzero T (get_lock T 0) \<Longrightarrow>
   retry_after_abort T tid tid' env env' env''"
  by (simp add: retry_after_abort_def acquire_zero abort_ok)

section \<open>Retry after abort\<close>

text \<open>
  C5. On every build, starting from an all-zero guard: \<^verbatim>\<open>__cxa_guard_acquire\<close> returns 1,
  the \<^verbatim>\<open>__cxa_guard_abort\<close> that follows leaves the guard all-zero again, and the next
  \<^verbatim>\<open>__cxa_guard_acquire\<close>, by any thread, returns 1 again. (The pthread calls are taken
  to succeed.)
\<close>

theorem retry_after_abort_all:
  "retry_after_abort duetto d d' a a' a'' \<and>
   retry_after_abort (apple e) p p' b b' b'' \<and>
   retry_after_abort (arm e'') r r' c c' c'' \<and>
   retry_after_abort (generic e') q q' k k' k''"
  by (simp add: retry_after_abort_zero first_char_zero lock_zero)

theorem retry_after_abort_witness:
  "pthread_ok (all_succeed [] :: uint64_t pthread_env) \<and>
   fst (cxa_guard_acquire (apple LittleEndian) 7 (all_succeed []) 0) = Returned 1 0x700000000 \<and>
   fst (cxa_guard_abort (apple LittleEndian) (all_succeed []) 0x700000000) = Returned () 0 \<and>
   fst (cxa_guard_acquire (apple LittleEndian) 9 (all_succeed []) 0) = Returned 1 0x900000000"
  using retry_after_abort_all
    [where e = LittleEndian and p = 7 and p' = 9 and b = "all_succeed []"
       and b' = "all_succeed []" and b'' = "all_succeed []"]
  by (simp add: retry_after_abort_def pthread_ok_def all_succeed_def granted_def lock_value_def apple_def
      set_lock_apple_def)

section \<open>The return value of acquire\<close>

lemma acquire_claim_result: "acquire_claim T g = Return r g' \<Longrightarrow> r = 0 \<or> r = 1"
  by (auto simp add: acquire_claim_def split: if_splits)

lemma acquire_loop_result: "acquire_loop T g = Return r g' \<Longrightarrow> r = 0 \<or> r = 1"
  by (auto simp add: acquire_loop_def split: if_splits dest: acquire_claim_result)

lemma acquire_enter_result: "acquire_enter T tid g = Return r g' \<Longrightarrow> r = 0 \<or> r = 1"
  by (auto simp add: acquire_enter_def Let_def split: if_splits
      dest: acquire_claim_result acquire_loop_result)

lemma acquire_wake_result: "acquire_wake T tid g = Return r g' \<Longrightarrow> r = 0 \<or> r = 1"
  by (auto simp add: acquire_wake_def Let_def split: if_splits dest: acquire_loop_result)

lemma acquire_wait_result: "acquire_wait T tid ws = (Return r g', l) \<Longrightarrow> r = 0 \<or> r = 1"
proof (induction ws arbitrary: l)
  case Nil
  then show ?case by simp
next
  case (Cons w ws)
  obtain rc g where w: "w = (rc, g)" by (cases w)
  show ?case
  proof (cases "acquire_wake T tid g")
    case (Return r0 g0)
    with Cons.prems w show ?thesis
      by (auto split: if_splits dest: acquire_wake_result)
  next
    case Wait
    with Cons.prems w obtain l' where "acquire_wait T tid ws = (Return r g', l')"
      by (auto split: if_splits prod.splits)
    then show ?thesis by (rule Cons.IH)
  next
    case (AbortMessage m)
    with Cons.prems w show ?thesis by (auto split: if_splits)
  qed
qed

lemma acquire_locked_result: "acquire_locked T tid ws g = (Return r g', l) \<Longrightarrow> r = 0 \<or> r = 1"
  by (auto simp add: acquire_locked_def split: stretch.splits
      dest: acquire_enter_result acquire_wait_result)

text \<open>
  C9. Whenever \<^verbatim>\<open>__cxa_guard_acquire\<close> returns, on any build, from any guard and
  whatever the waits in between brought, the value returned is 0 or 1.
\<close>

theorem acquire_returns_0_or_1: "fst (cxa_guard_acquire T tid env g) = Returned r g' \<Longrightarrow> r = 0 \<or> r = 1"
proof (cases "uses_pthread T")
  case False
  assume "fst (cxa_guard_acquire T tid env g) = Returned r g'"
  with False have "acquire_enter T tid g = Return r g'"
    by (simp add: cxa_guard_acquire_def split: stretch.splits)
  then show ?thesis by (rule acquire_enter_result)
next
  case True
  assume "fst (cxa_guard_acquire T tid env g) = Returned r g'"
  with True obtain l where "acquire_locked T tid (cond_wait_returns env) g = (Return r g', l)"
    by (auto simp add: cxa_guard_acquire_def split: if_splits prod.splits stretch.splits)
  then show ?thesis by (rule acquire_locked_result)
qed

theorem acquire_returns_0_or_1_witness:
  "fst (cxa_guard_acquire (generic BigEndian) True
         (all_succeed [(0, 0x0001000000000000), (0, 0x0100000000000000)]) 0x0001000000000000)
     = Returned 0 0x0100000000000000 \<and> ((0::int) = 0 \<or> (0::int) = 1)"
proof -
  have "fst (cxa_guard_acquire (generic BigEndian) True
         (all_succeed [(0, 0x0001000000000000), (0, 0x0100000000000000)]) 0x0001000000000000)
     = Returned 0 0x0100000000000000"
    by (simp add: all_succeed_def cxa_guard_acquire_def acquire_locked_def acquire_enter_def acquire_wake_def
        acquire_loop_def acquire_claim_def generic_def get_lock_union_def load_byte_def
        byte_shift_def)
  from this acquire_returns_0_or_1 [OF this] show ?thesis by (rule conjI)
qed

section \<open>After release\<close>

lemma first_char_released:
  "first_char duetto (released duetto) = 1" "first_char (apple e) (released (apple e)) = 1"
  "first_char (arm LittleEndian) (released (arm LittleEndian)) = 1"
  "first_char (generic e) (released (generic e)) = 1"
  by (simp_all add: released_def duetto_def apple_def arm_def generic_def set_initialized_bit_def
      set_initialized_byte_def load_store_same, simp_all add: load_byte_def byte_shift_def)

lemma release_ok:
  "pthread_ok env \<Longrightarrow> fst (cxa_guard_release T env g) = Returned () (released T)"
  by (simp add: cxa_guard_release_def release_stores_def released_def pthread_ok_def)

lemma acquire_initialized:
  "first_char T g \<noteq> 0 \<Longrightarrow> pthread_ok env \<Longrightarrow>
   cxa_guard_acquire T tid env g =
     (Returned 0 g, if uses_pthread T then [(MutexLock, 0), (MutexUnlock, 0)] else [])"
  by (simp add: cxa_guard_acquire_def acquire_locked_def acquire_enter_def pthread_ok_def)

lemma acquire_calls_initialized:
  "first_char T g \<noteq> 0 \<Longrightarrow> \<forall>c \<in> set cs. pthread_ok (snd c) \<Longrightarrow>
   acquire_calls T cs g =
     replicate (length cs)
       (Returned 0 g, if uses_pthread T then [(MutexLock, 0), (MutexUnlock, 0)] else [])"
proof (induction cs)
  case Nil
  show ?case by simp
next
  case (Cons c cs)
  obtain tid env where c: "c = (tid, env)" by (cases c)
  with Cons.prems have "pthread_ok env" by simp
  with Cons.prems(1) have
    "cxa_guard_acquire T tid env g =
       (Returned 0 g, if uses_pthread T then [(MutexLock, 0), (MutexUnlock, 0)] else [])"
    by (rule acquire_initialized)
  with Cons c show ?case by (simp add: Let_def)
qed

lemma fast_path_initialized:
  "first_char T (released T) \<noteq> 0 \<Longrightarrow> fast_path_after_release T env g cs"
  unfolding fast_path_after_release_def
  by (auto simp add: release_ok acquire_calls_initialized)

text \<open>
  On the \<^verbatim>\<open>__DUETTO__\<close>, Apple, little-endian \<^verbatim>\<open>__arm__\<close> and generic builds, once
  \<^verbatim>\<open>__cxa_guard_release\<close> has returned on a guard, whatever the guard held before,
  every later call of \<^verbatim>\<open>__cxa_guard_acquire\<close> on it, however many there are and
  whichever threads make them, returns 0 with the guard unchanged and without a call
  of \<^verbatim>\<open>pthread_cond_wait\<close>. (The mutex and broadcast calls are taken to succeed.)
\<close>

lemma fast_path_after_release_builds:
  "fast_path_after_release duetto a x ds \<and>
   fast_path_after_release (apple e) b y ps \<and>
   fast_path_after_release (arm LittleEndian) c z rs \<and>
   fast_path_after_release (generic e') k w qs"
  by (simp add: fast_path_initialized first_char_released)

text \<open>
  C2 fails on the big-endian \<^verbatim>\<open>__arm__\<close> build. \<^verbatim>\<open>__cxa_guard_release\<close>, here on a
  guard that holds the lock, leaves the word 1: \<^verbatim>\<open>set_initialized\<close> sets bit 0, which
  lies in the last byte. \<^verbatim>\<open>__cxa_guard_acquire\<close> tests \<^verbatim>\<open>*(char*)guard_object\<close>, the
  first byte; the next call finds it zero and the lock byte zero, stores the lock
  over the flag and returns 1, with all pthread calls succeeding.
\<close>

theorem acquire_after_release_big_endian_arm:
  "granted (arm BigEndian) True 0 = 0x10000 \<and>
   cxa_guard_release (arm BigEndian) (all_succeed []) 0x10000
     = (Returned () 1, [(MutexLock, 0), (MutexUnlock, 0), (CondBroadcast, 0)]) \<and>
   is_initialized (arm BigEndian) 1 \<and>
   cxa_guard_acquire (arm BigEndian) True (all_succeed []) 1
     = (Returned 1 0x10000, [(MutexLock, 0), (MutexUnlock, 0)]) \<and>
   \<not> is_initialized (arm BigEndian) 0x10000"
  by (simp add: granted_def lock_value_def all_succeed_def cxa_guard_release_def
      release_stores_def cxa_guard_acquire_def acquire_locked_def acquire_enter_def
      acquire_loop_def acquire_claim_def arm_def get_lock_union_def set_lock_union_def
      load_byte_def store_byte_def byte_shift_def set_initialized_bit_def is_initialized_bit_def)

section \<open>Failing pthread calls\<close>

lemma acquire_wait_log:
  "acquire_wait T tid ws = (s, l) \<Longrightarrow> (c, rc) \<in> set l \<Longrightarrow> rc \<noteq> 0 \<Longrightarrow>
   c = CondWait \<and> s = AbortMessage ''__cxa_guard_acquire condition variable wait failed''"
proof (induction ws arbitrary: s l)
  case Nil
  then show ?case by simp
next
  case (Cons w ws)
  obtain rc' g where w: "w = (rc', g)" by (cases w)
  show ?case
  proof (cases "rc' = 0")
    case False
    with Cons.prems w show ?thesis by auto
  next
    case True
    show ?thesis
    proof (cases "acquire_wake T tid g")
      case Wait
      with True Cons.prems w obtain l' where
        "acquire_wait T tid ws = (s, l')" "l = (CondWait, 0) # l'"
        by (auto split: prod.splits)
      with Cons.prems(2,3) Cons.IH [of s l'] show ?thesis by auto
    next
      case (Return r g')
      with True Cons.prems w show ?thesis by auto
    next
      case (AbortMessage m)
      with True Cons.prems w show ?thesis by auto
    qed
  qed
qed

lemma acquire_locked_log:
  "acquire_locked T tid ws g = (s, l) \<Longrightarrow> (c, rc) \<in> set l \<Longrightarrow> rc \<noteq> 0 \<Longrightarrow>
   c = CondWait \<and> s = AbortMessage ''__cxa_guard_acquire condition variable wait failed''"
  by (cases "acquire_enter T tid g") (auto simp add: acquire_locked_def dest: acquire_wait_log)

lemma acquire_failure_is_fatal:
  "failure_is_fatal ''__cxa_guard_acquire'' (cxa_guard_acquire T tid env g)"
proof (cases "uses_pthread T \<and> mutex_lock_rc env = 0")
  case False
  then show ?thesis
    by (auto simp add: failure_is_fatal_def cxa_guard_acquire_def diagnostic_def
        split: stretch.splits)
next
  case True
  obtain s l where sl: "acquire_locked T tid (cond_wait_returns env) g = (s, l)"
    by (cases "acquire_locked T tid (cond_wait_returns env) g")
  have l: "\<forall>x \<in> set l. snd x \<noteq> 0 \<longrightarrow> fst x = CondWait \<and>
             s = AbortMessage ''__cxa_guard_acquire condition variable wait failed''"
    using acquire_locked_log [OF sl] by auto
  show ?thesis
  proof (cases s)
    case (Return r g')
    with l have "\<forall>x \<in> set l. snd x = 0" by auto
    with True sl Return show ?thesis
      by (auto simp add: failure_is_fatal_def cxa_guard_acquire_def diagnostic_def)
  next
    case Wait
    with l have "\<forall>x \<in> set l. snd x = 0" by auto
    with True sl Wait show ?thesis
      by (auto simp add: failure_is_fatal_def cxa_guard_acquire_def diagnostic_def)
  next
    case (AbortMessage m)
    with True sl l show ?thesis
      by (auto simp add: failure_is_fatal_def cxa_guard_acquire_def diagnostic_def)
  qed
qed

lemma release_failure_is_fatal:
  "failure_is_fatal ''__cxa_guard_release'' (cxa_guard_release T env g)"
  by (simp add: failure_is_fatal_def cxa_guard_release_def diagnostic_def)

lemma abort_failure_is_fatal:
  "failure_is_fatal ''__cxa_guard_abort'' (cxa_guard_abort T env g)"
  by (simp add: failure_is_fatal_def cxa_guard_abort_def diagnostic_def)

lemma acquire_enter_waits:
  "uses_pthread T \<Longrightarrow> first_char T g = 0 \<Longrightarrow> lock_nonzero T (get_lock T g) \<Longrightarrow>
   stores_thread_id T \<longrightarrow> get_lock T g \<noteq> tid \<Longrightarrow> acquire_enter T tid g = Wait"
  by (simp add: acquire_enter_def acquire_loop_def)

lemma acquire_wake_waits: "lock_nonzero T (get_lock T g) \<Longrightarrow> acquire_wake T tid g = Wait"
  by (simp add: acquire_wake_def acquire_loop_def)

lemma acquire_wait_fails:
  "\<forall>w \<in> set ws. fst w = 0 \<and> lock_nonzero T (get_lock T (snd w)) \<Longrightarrow> rc \<noteq> 0 \<Longrightarrow>
   acquire_wait T tid (ws @ (rc, gk) # ws') =
     (AbortMessage ''__cxa_guard_acquire condition variable wait failed'',
      map (\<lambda>w. (CondWait, 0)) ws @ [(CondWait, rc)])"
proof (induction ws)
  case Nil
  then show ?case by simp
next
  case (Cons w ws)
  obtain rc0 g0 where w: "w = (rc0, g0)" by (cases w)
  with Cons.prems have "rc0 = 0" "acquire_wake T tid g0 = Wait"
    by (simp_all add: acquire_wake_waits)
  with w Cons show ?case by simp
qed

lemma acquire_unlock_fails:
  assumes "uses_pthread T" "mutex_lock_rc env = 0" "mutex_unlock_rc env \<noteq> 0"
  shows "\<not> returns (fst (cxa_guard_acquire T tid env g))"
    and "returns (fst (cxa_guard_acquire T tid (env\<lparr>mutex_unlock_rc := 0\<rparr>) g)) \<Longrightarrow>
      fst (cxa_guard_acquire T tid env g) = Aborted ''__cxa_guard_acquire failed to release mutex''"
proof -
  obtain s l where sl: "acquire_locked T tid (cond_wait_returns env) g = (s, l)"
    by (cases "acquire_locked T tid (cond_wait_returns env) g")
  from assms sl show "\<not> returns (fst (cxa_guard_acquire T tid env g))"
    by (cases s) (simp_all add: cxa_guard_acquire_def)
  assume "returns (fst (cxa_guard_acquire T tid (env\<lparr>mutex_unlock_rc := 0\<rparr>) g))"
  with assms sl show
    "fst (cxa_guard_acquire T tid env g) = Aborted ''__cxa_guard_acquire failed to release mutex''"
    by (cases s) (simp_all add: cxa_guard_acquire_def)
qed

text \<open>
  C8. On every build with pthread calls and in each of the three entry points, a
  pthread call that returns nonzero ends the call in \<^verbatim>\<open>abort_message\<close> with the
  diagnostic that names the entry point and the failed call; the entry point does
  not return. By failing call: \<^verbatim>\<open>pthread_mutex_lock\<close>, the first call of each entry
  point; \<^verbatim>\<open>pthread_mutex_unlock\<close>, which release and abort always reach and acquire
  reaches when it would otherwise return; \<^verbatim>\<open>pthread_cond_broadcast\<close> in release and
  abort; and \<^verbatim>\<open>pthread_cond_wait\<close> in acquire, reached when the guard is found
  uninitialized and locked by another thread, at entry and after each earlier wait
  that succeeded. Also, whatever pthread call of the log of a call has a nonzero
  return code, the call has ended with the diagnostic of that pthread call.
\<close>

theorem pthread_failure_is_fatal:
  assumes "uses_pthread T"
  shows
  "(mutex_lock_rc env \<noteq> 0 \<longrightarrow>
      cxa_guard_acquire T tid env g =
        (Aborted ''__cxa_guard_acquire failed to acquire mutex'', [(MutexLock, mutex_lock_rc env)]) \<and>
      cxa_guard_release T env g =
        (Aborted ''__cxa_guard_release failed to acquire mutex'', [(MutexLock, mutex_lock_rc env)]) \<and>
      cxa_guard_abort T env g =
        (Aborted ''__cxa_guard_abort failed to acquire mutex'', [(MutexLock, mutex_lock_rc env)])) \<and>
   (mutex_lock_rc env = 0 \<and> mutex_unlock_rc env \<noteq> 0 \<longrightarrow>
      \<not> returns (fst (cxa_guard_acquire T tid env g)) \<and>
      (returns (fst (cxa_guard_acquire T tid (env\<lparr>mutex_unlock_rc := 0\<rparr>) g)) \<longrightarrow>
         fst (cxa_guard_acquire T tid env g) =
           Aborted ''__cxa_guard_acquire failed to release mutex'') \<and>
      cxa_guard_release T env g =
        (Aborted ''__cxa_guard_release failed to release mutex'',
         [(MutexLock, 0), (MutexUnlock, mutex_unlock_rc env)]) \<and>
      cxa_guard_abort T env g =
        (Aborted ''__cxa_guard_abort failed to release mutex'',
         [(MutexLock, 0), (MutexUnlock, mutex_unlock_rc env)])) \<and>
   (mutex_lock_rc env = 0 \<and> mutex_unlock_rc env = 0 \<and> cond_broadcast_rc env \<noteq> 0 \<longrightarrow>
      cxa_guard_release T env g =
        (Aborted ''__cxa_guard_release failed to broadcast condition variable'',
         [(MutexLock, 0), (MutexUnlock, 0), (CondBroadcast, cond_broadcast_rc env)]) \<and>
      cxa_guard_abort T env g =
        (Aborted ''__cxa_guard_abort failed to broadcast condition variable'',
         [(MutexLock, 0), (MutexUnlock, 0), (CondBroadcast, cond_broadcast_rc env)])) \<and>
   (mutex_lock_rc env = 0 \<and> first_char T g = 0 \<and> lock_nonzero T (get_lock T g) \<and>
    (stores_thread_id T \<longrightarrow> get_lock T g \<noteq> tid) \<and>
    cond_wait_returns env = ws @ (rc, gk) # ws' \<and> rc \<noteq> 0 \<and>
    (\<forall>w \<in> set ws. fst w = 0 \<and> lock_nonzero T (get_lock T (snd w))) \<longrightarrow>
      cxa_guard_acquire T tid env g =
        (Aborted ''__cxa_guard_acquire condition variable wait failed'',
         (MutexLock, 0) # map (\<lambda>w. (CondWait, 0)) ws @ [(CondWait, rc)])) \<and>
   failure_is_fatal ''__cxa_guard_acquire'' (cxa_guard_acquire T tid env g) \<and>
   failure_is_fatal ''__cxa_guard_release'' (cxa_guard_release T env g) \<and>
   failure_is_fatal ''__cxa_guard_abort'' (cxa_guard_abort T env g)"
proof (intro conjI impI)
  assume "mutex_lock_rc env \<noteq> 0"
  with assms show
    "cxa_guard_acquire T tid env g =
      (Aborted ''__cxa_guard_acquire failed to acquire mutex'', [(MutexLock, mutex_lock_rc env)])"
    "cxa_guard_release T env g =
      (Aborted ''__cxa_guard_release failed to acquire mutex'', [(MutexLock, mutex_lock_rc env)])"
    "cxa_guard_abort T env g =
      (Aborted ''__cxa_guard_abort failed to acquire mutex'', [(MutexLock, mutex_lock_rc env)])"
    by (simp_all add: cxa_guard_acquire_def cxa_guard_release_def cxa_guard_abort_def)
next
  assume u: "mutex_lock_rc env = 0 \<and> mutex_unlock_rc env \<noteq> 0"
  with assms show "\<not> returns (fst (cxa_guard_acquire T tid env g))"
    by (simp add: acquire_unlock_fails)
  from assms u show
    "cxa_guard_release T env g =
      (Aborted ''__cxa_guard_release failed to release mutex'',
       [(MutexLock, 0), (MutexUnlock, mutex_unlock_rc env)])"
    "cxa_guard_abort T env g =
      (Aborted ''__cxa_guard_abort failed to release mutex'',
       [(MutexLock, 0), (MutexUnlock, mutex_unlock_rc env)])"
    by (simp_all add: cxa_guard_release_def cxa_guard_abort_def)
  assume "returns (fst (cxa_guard_acquire T tid (env\<lparr>mutex_unlock_rc := 0\<rparr>) g))"
  with assms u show
    "fst (cxa_guard_acquire T tid env g) = Aborted ''__cxa_guard_acquire failed to release mutex''"
    by (simp add: acquire_unlock_fails)
next
  assume "mutex_lock_rc env = 0 \<and> mutex_unlock_rc env = 0 \<and> cond_broadcast_rc env \<noteq> 0"
  with assms show
    "cxa_guard_release T env g =
      (Aborted ''__cxa_guard_release failed to broadcast condition variable'',
       [(MutexLock, 0), (MutexUnlock, 0), (CondBroadcast, cond_broadcast_rc env)])"
    "cxa_guard_abort T env g =
      (Aborted ''__cxa_guard_abort failed to broadcast condition variable'',
       [(MutexLock, 0), (MutexUnlock, 0), (CondBroadcast, cond_broadcast_rc env)])"
    by (simp_all add: cxa_guard_release_def cxa_guard_abort_def)
next
  assume w: "mutex_lock_rc env = 0 \<and> first_char T g = 0 \<and> lock_nonzero T (get_lock T g) \<and>
    (stores_thread_id T \<longrightarrow> get_lock T g \<noteq> tid) \<and>
    cond_wait_returns env = ws @ (rc, gk) # ws' \<and> rc \<noteq> 0 \<and>
    (\<forall>w \<in> set ws. fst w = 0 \<and> lock_nonzero T (get_lock T (snd w)))"
  with assms have "acquire_enter T tid g = Wait" by (simp add: acquire_enter_waits)
  moreover from w have "acquire_wait T tid (cond_wait_returns env) =
     (AbortMessage ''__cxa_guard_acquire condition variable wait failed'',
      map (\<lambda>w. (CondWait, 0)) ws @ [(CondWait, rc)])"
    by (simp add: acquire_wait_fails)
  ultimately show "cxa_guard_acquire T tid env g =
      (Aborted ''__cxa_guard_acquire condition variable wait failed'',
       (MutexLock, 0) # map (\<lambda>w. (CondWait, 0)) ws @ [(CondWait, rc)])"
    using assms w by (simp add: cxa_guard_acquire_def acquire_locked_def)
next
  show "failure_is_fatal ''__cxa_guard_acquire'' (cxa_guard_acquire T tid env g)"
    by (rule acquire_failure_is_fatal)
  show "failure_is_fatal ''__cxa_guard_release'' (cxa_guard_release T env g)"
    by (rule release_failure_is_fatal)
  show "failure_is_fatal ''__cxa_guard_abort'' (cxa_guard_abort T env g)"
    by (rule abort_failure_is_fatal)
qed

theorem pthread_failure_is_fatal_witness:
  "uses_pthread (generic LittleEndian) \<and>
   cxa_guard_release (generic LittleEndian)
       \<lparr>mutex_lock_rc = 22, cond_wait_returns = [], mutex_unlock_rc = 0, cond_broadcast_rc = 0\<rparr>
       0x100
     = (Aborted ''__cxa_guard_release failed to acquire mutex'', [(MutexLock, 22)]) \<and>
   returns (fst (cxa_guard_acquire (generic LittleEndian) True
       \<lparr>mutex_lock_rc = 0, cond_wait_returns = [], mutex_unlock_rc = 0, cond_broadcast_rc = 0\<rparr>
       0)) \<and>
   fst (cxa_guard_acquire (generic LittleEndian) True
       \<lparr>mutex_lock_rc = 0, cond_wait_returns = [], mutex_unlock_rc = 1, cond_broadcast_rc = 0\<rparr>
       0)
     = Aborted ''__cxa_guard_acquire failed to release mutex'' \<and>
   cxa_guard_abort (generic LittleEndian)
       \<lparr>mutex_lock_rc = 0, cond_wait_returns = [], mutex_unlock_rc = 0, cond_broadcast_rc = 5\<rparr>
       0x100
     = (Aborted ''__cxa_guard_abort failed to broadcast condition variable'',
        [(MutexLock, 0), (MutexUnlock, 0), (CondBroadcast, 5)]) \<and>
   cxa_guard_acquire (generic LittleEndian) True
       \<lparr>mutex_lock_rc = 0, cond_wait_returns = [(0, 0x100), (22, 0)], mutex_unlock_rc = 0,
        cond_broadcast_rc = 0\<rparr>
       0x100
     = (Aborted ''__cxa_guard_acquire condition variable wait failed'',
        [(MutexLock, 0), (CondWait, 0), (CondWait, 22)])"
proof -
  let ?T = "generic LittleEndian"
  let ?lock = "\<lparr>mutex_lock_rc = 22, cond_wait_returns = [], mutex_unlock_rc = 0,
    cond_broadcast_rc = 0\<rparr> :: uint64_t pthread_env"
  let ?ok = "\<lparr>mutex_lock_rc = 0, cond_wait_returns = [], mutex_unlock_rc = 0,
    cond_broadcast_rc = 0\<rparr> :: uint64_t pthread_env"
  let ?unlock = "\<lparr>mutex_lock_rc = 0, cond_wait_returns = [], mutex_unlock_rc = 1,
    cond_broadcast_rc = 0\<rparr> :: uint64_t pthread_env"
  let ?broadcast = "\<lparr>mutex_lock_rc = 0, cond_wait_returns = [], mutex_unlock_rc = 0,
    cond_broadcast_rc = 5\<rparr> :: uint64_t pthread_env"
  let ?wait = "\<lparr>mutex_lock_rc = 0, cond_wait_returns = [(0, 0x100), (22, 0)],
    mutex_unlock_rc = 0, cond_broadcast_rc = 0\<rparr> :: uint64_t pthread_env"
  have p: "uses_pthread ?T" by (simp add: generic_def)
  note fatal = pthread_failure_is_fatal [OF p]
  have "mutex_lock_rc ?lock \<noteq> 0" by simp
  with fatal [where env = ?lock and tid = True and g = "0x100", THEN conjunct1]
  have a: "cxa_guard_release ?T ?lock 0x100 =
      (Aborted ''__cxa_guard_release failed to acquire mutex'', [(MutexLock, 22)])"
    by simp
  have ret: "returns (fst (cxa_guard_acquire ?T True ?ok 0))"
    by (simp add: cxa_guard_acquire_def acquire_locked_def acquire_enter_def acquire_loop_def
        acquire_claim_def generic_def get_lock_union_def load_byte_def)
  have "?unlock\<lparr>mutex_unlock_rc := 0\<rparr> = ?ok" by simp
  with ret have "returns (fst (cxa_guard_acquire ?T True (?unlock\<lparr>mutex_unlock_rc := 0\<rparr>) 0))"
    by simp
  moreover have "mutex_lock_rc ?unlock = 0 \<and> mutex_unlock_rc ?unlock \<noteq> 0" by simp
  ultimately have b: "fst (cxa_guard_acquire ?T True ?unlock 0) =
      Aborted ''__cxa_guard_acquire failed to release mutex''"
    using fatal [where env = ?unlock and tid = True and g = 0, THEN conjunct2, THEN conjunct1]
    by blast
  have "mutex_lock_rc ?broadcast = 0 \<and> mutex_unlock_rc ?broadcast = 0 \<and>
      cond_broadcast_rc ?broadcast \<noteq> 0" by simp
  with fatal [where env = ?broadcast and g = "0x100", THEN conjunct2, THEN conjunct2,
      THEN conjunct1]
  have c: "cxa_guard_abort ?T ?broadcast 0x100 =
      (Aborted ''__cxa_guard_abort failed to broadcast condition variable'',
       [(MutexLock, 0), (MutexUnlock, 0), (CondBroadcast, 5)])"
    by simp
  have "mutex_lock_rc ?wait = 0 \<and> first_char ?T 0x100 = 0 \<and> lock_nonzero ?T (get_lock ?T 0x100) \<and>
      (stores_thread_id ?T \<longrightarrow> get_lock ?T 0x100 \<noteq> True) \<and>
      cond_wait_returns ?wait = [(0, 0x100)] @ (22, 0) # [] \<and> (22::int) \<noteq> 0 \<and>
      (\<forall>w \<in> set [(0::int, 0x100::uint64_t)]. fst w = 0 \<and> lock_nonzero ?T (get_lock ?T (snd w)))"
    by (simp add: generic_def get_lock_union_def load_byte_def byte_shift_def)
  with fatal [where env = ?wait and tid = True and g = "0x100" and ws = "[(0, 0x100)]"
      and rc = 22 and gk = 0 and ws' = "[]", THEN conjunct2, THEN conjunct2, THEN conjunct2,
      THEN conjunct1]
  have "cxa_guard_acquire ?T True ?wait 0x100 =
      (Aborted ''__cxa_guard_acquire condition variable wait failed'',
       (MutexLock, 0) # map (\<lambda>w. (CondWait, 0)) [(0::int, 0x100::uint64_t)] @ [(CondWait, 22)])"
    by (rule mp)
  then have d: "cxa_guard_acquire ?T True ?wait 0x100 =
      (Aborted ''__cxa_guard_acquire condition variable wait failed'',
       [(MutexLock, 0), (CondWait, 0), (CondWait, 22)])"
    by simp
  from p a ret b c d show ?thesis by (intro conjI)
qed

section \<open>Acquire by the thread that holds the guard\<close>

lemma apple_get_set: "get_lock_apple e (set_lock_apple e x y) = y"
  by (cases e; rule bit_word_eqI; simp add: get_lock_apple_def set_lock_apple_def bit_simps)

lemma apple_first_set: "load_byte e 0 (set_lock_apple e x y) = 0"
  by (cases e; rule bit_word_eqI;
      auto simp add: bit_load_byte set_lock_apple_def bit_simps byte_shift_def
        dest: bit_imp_le_length)

text \<open>
  C6. On the Apple builds, where the lock field holds a thread identity: a thread
  that calls \<^verbatim>\<open>__cxa_guard_acquire\<close> on a guard whose initialization is not complete
  and whose lock field is set and equal to the caller's identity is ended by
  \<^verbatim>\<open>abort_message\<close> with the deadlock diagnostic, before any wait and without a
  return; such is the guard that the thread's own granted call has left. (A lock
  field that is set is nonzero, so the identity is; the mutex is taken to be
  acquired.)
\<close>

theorem self_deadlock_detected:
  "tid \<noteq> 0 \<Longrightarrow> mutex_lock_rc env = 0 \<Longrightarrow>
   (first_char (apple e) g = 0 \<and> get_lock (apple e) g = tid \<longrightarrow>
      cxa_guard_acquire (apple e) tid env g =
        (Aborted ''__cxa_guard_acquire detected deadlock'', [(MutexLock, 0)])) \<and>
   cxa_guard_acquire (apple e) tid env (granted (apple e) tid g0) =
     (Aborted ''__cxa_guard_acquire detected deadlock'', [(MutexLock, 0)])"
proof -
  assume tid: "tid \<noteq> 0" and rc: "mutex_lock_rc env = 0"
  have own: "cxa_guard_acquire (apple e) tid env g =
        (Aborted ''__cxa_guard_acquire detected deadlock'', [(MutexLock, 0)])"
    if "first_char (apple e) g = 0" "get_lock (apple e) g = tid" for g
  proof -
    from that tid have "acquire_enter (apple e) tid g =
        AbortMessage ''__cxa_guard_acquire detected deadlock''"
      by (simp add: acquire_enter_def apple_def)
    with rc show ?thesis
      by (simp add: cxa_guard_acquire_def acquire_locked_def apple_def)
  qed
  have "first_char (apple e) (granted (apple e) tid g0) = 0"
    "get_lock (apple e) (granted (apple e) tid g0) = tid"
    by (simp_all add: granted_def lock_value_def apple_def apple_get_set apple_first_set)
  then have "cxa_guard_acquire (apple e) tid env (granted (apple e) tid g0) =
     (Aborted ''__cxa_guard_acquire detected deadlock'', [(MutexLock, 0)])"
    by (rule own)
  with own show ?thesis by blast
qed

theorem self_deadlock_detected_witness:
  "(7 :: uint32_t) \<noteq> 0 \<and> mutex_lock_rc (all_succeed [] :: uint64_t pthread_env) = 0 \<and>
   first_char (apple BigEndian) 7 = 0 \<and> get_lock (apple BigEndian) 7 = 7 \<and>
   cxa_guard_acquire (apple BigEndian) 7 (all_succeed []) 7 =
        (Aborted ''__cxa_guard_acquire detected deadlock'', [(MutexLock, 0)])"
proof -
  have h: "(7 :: uint32_t) \<noteq> 0" "mutex_lock_rc (all_succeed [] :: uint64_t pthread_env) = 0"
    by (simp_all add: all_succeed_def)
  have g: "first_char (apple BigEndian) 7 = 0" "get_lock (apple BigEndian) 7 = 7"
    by (simp_all add: apple_def load_byte_def byte_shift_def get_lock_apple_def)
  from self_deadlock_detected [OF h, of BigEndian 7] g
  have "cxa_guard_acquire (apple BigEndian) 7 (all_succeed []) 7 =
        (Aborted ''__cxa_guard_acquire detected deadlock'', [(MutexLock, 0)])"
    by blast
  with h g show ?thesis by blast
qed

section \<open>Where the fields lie\<close>

lemma first_char_32: "load_byte LittleEndian 0 (x::uint32_t) = ucast x"
  by (simp add: load_byte_def byte_shift_def)

lemma is_initialized_bit_iff: "is_initialized_bit x \<longleftrightarrow> bit x 0"
  by (simp add: is_initialized_bit_def and_one_eq bit_0 mod_2_eq_odd)

lemma first_char_zero_bit:
  "load_byte LittleEndian 0 (x::uint32_t) = 0 \<Longrightarrow> \<not> is_initialized_bit x"
proof -
  assume "load_byte LittleEndian 0 x = 0"
  then have "bit (load_byte LittleEndian 0 x) 0 = bit (0::uint8_t) 0" by simp
  then show ?thesis by (simp add: bit_load_byte byte_shift_def is_initialized_bit_iff)
qed

lemma apple_lock_released: "get_lock_apple e (set_initialized_byte e 0) = 0"
  by (cases e; rule bit_word_eqI;
      simp add: get_lock_apple_def set_initialized_byte_def bit_store_byte bit_simps
        byte_shift_def)

lemma apple_set_lock_half:
  "(case e of LittleEndian \<Rightarrow> take_bit 32 (set_lock_apple e x y)
            | BigEndian \<Rightarrow> drop_bit 32 (set_lock_apple e x y)) = 0"
  by (cases e; simp; rule bit_word_eqI;
      auto simp add: set_lock_apple_def bit_simps dest: bit_imp_le_length)

lemma union_get_set:
  "16 \<le> LENGTH('a) \<Longrightarrow> get_lock_union e (set_lock_union e (x::'a::len word) y) = y"
  by (simp add: get_lock_union_def set_lock_union_def load_store_same)

lemma union_other_bytes_32:
  "i \<noteq> 1 \<Longrightarrow> load_byte e i (set_lock_union e (x::uint32_t) y) = 0"
  by (rule bit_word_eqI, cases e;
      auto simp add: set_lock_union_def bit_load_byte bit_store_byte byte_shift_def Let_def)

lemma union_other_bytes_64:
  "i \<noteq> 1 \<Longrightarrow> load_byte e i (set_lock_union e (x::uint64_t) y) = 0"
  by (rule bit_word_eqI, cases e;
      auto simp add: set_lock_union_def bit_load_byte bit_store_byte byte_shift_def Let_def)

lemma union_lock_released_bit: "\<not> get_lock_union e (set_initialized_bit 0)"
  by (cases e; simp add: get_lock_union_def set_initialized_bit_def load_byte_def byte_shift_def)

lemma union_flag_clear_bit: "\<not> is_initialized_bit (set_lock_union e y b)"
  by (cases e;
      simp add: is_initialized_bit_iff set_lock_union_def bit_store_byte byte_shift_def)

lemma union_lock_released_byte: "\<not> get_lock_union e (set_initialized_byte e 0)"
  by (simp add: get_lock_union_def set_initialized_byte_def load_store_other load_byte_zero)

lemma set_lock_flag_clear:
  "first_char (apple e) (set_lock (apple e) x p) = 0"
  "\<not> is_initialized (apple e) (set_lock (apple e) x p)"
  "first_char (arm e) (set_lock (arm e) y b) = 0"
  "\<not> is_initialized (arm e) (set_lock (arm e) y b)"
  "first_char (generic e) (set_lock (generic e) x b) = 0"
  "\<not> is_initialized (generic e) (set_lock (generic e) x b)"
  by (simp_all add: apple_def arm_def generic_def apple_first_set is_initialized_byte_def
      union_other_bytes_32 union_other_bytes_64 union_flag_clear_bit)

lemma get_set_lock:
  "get_lock duetto (set_lock duetto y d) = d"
  "get_lock (apple e) (set_lock (apple e) x p) = p"
  "get_lock (arm e) (set_lock (arm e) y b) = b"
  "get_lock (generic e) (set_lock (generic e) x b) = b"
  by (simp_all add: duetto_def apple_def arm_def generic_def get_lock_duetto_def
      set_lock_duetto_def apple_get_set union_get_set)

lemma set_lock_any:
  "set_lock duetto y d = set_lock duetto 0 d"
  "set_lock (apple e) x p = set_lock (apple e) 0 p"
  "set_lock (arm e) y b = set_lock (arm e) 0 b"
  "set_lock (generic e) x b = set_lock (generic e) 0 b"
  by (simp_all add: duetto_def apple_def arm_def generic_def set_lock_duetto_def
      set_lock_apple_def set_lock_union_def)

lemma released_flag:
  "is_initialized duetto (released duetto)" "is_initialized (apple e) (released (apple e))"
  "is_initialized (arm e) (released (arm e))" "is_initialized (generic e) (released (generic e))"
  by (simp_all add: released_def duetto_def apple_def arm_def generic_def
      is_initialized_byte_def set_initialized_byte_def load_store_same,
      simp_all add: is_initialized_bit_def set_initialized_bit_def)

lemma released_lock:
  "\<not> lock_nonzero (apple e) (get_lock (apple e) (released (apple e)))"
  "\<not> lock_nonzero (arm e) (get_lock (arm e) (released (arm e)))"
  "\<not> lock_nonzero (generic e) (get_lock (generic e) (released (generic e)))"
  by (simp_all add: released_def apple_def arm_def generic_def apple_lock_released
      union_lock_released_bit union_lock_released_byte)

lemma zero_flag:
  "\<not> is_initialized duetto 0" "\<not> is_initialized (apple e) 0"
  "\<not> is_initialized (arm e) 0" "\<not> is_initialized (generic e) 0"
  by (simp_all add: duetto_def apple_def arm_def generic_def is_initialized_bit_def
      is_initialized_byte_def load_byte_zero)

section \<open>What set_lock writes\<close>

text \<open>
  C10 as stated fails under \<^verbatim>\<open>__DUETTO__\<close>, where the lock is the whole guard, the
  initialized bit included: a guard whose initialized bit is set still has it set
  after \<^verbatim>\<open>set_lock\<close> with the value 1, which is the value \<^verbatim>\<open>__cxa_guard_acquire\<close>
  passes.
\<close>

theorem set_lock_duetto_sets_initialized:
  "is_initialized duetto 1 \<and> is_initialized duetto (set_lock duetto 1 1)"
  by (simp add: duetto_def is_initialized_bit_def set_lock_duetto_def)

text \<open>
  C10, as the code has it. For every prior guard \<open>x\<close> and lock value \<open>y\<close>,
  \<^verbatim>\<open>set_lock(x, y)\<close> rewrites the whole guard: the result does not depend on \<open>x\<close>, and
  \<^verbatim>\<open>get_lock\<close> reads \<open>y\<close> back from it. On the Apple, arm (either byte order) and
  generic builds every bit outside the lock field is zero afterwards (the other half
  of the guard on Apple, every byte but the second with the boolean lock), so the
  initialized flag is clear.
  Under \<^verbatim>\<open>__DUETTO__\<close> the guard becomes \<open>y\<close> itself, and its initialized bit is bit 0
  of \<open>y\<close>.
\<close>

theorem set_lock_rewrites_guard:
  "set_lock duetto y d = d \<and> get_lock duetto (set_lock duetto y d) = d \<and>
   is_initialized duetto (set_lock duetto y d) = bit d 0 \<and>
   set_lock (apple e) x p = set_lock (apple e) 0 p \<and>
   get_lock (apple e) (set_lock (apple e) x p) = p \<and>
   (case e of LittleEndian \<Rightarrow> take_bit 32 (set_lock (apple e) x p)
            | BigEndian \<Rightarrow> drop_bit 32 (set_lock (apple e) x p)) = 0 \<and>
   \<not> is_initialized (apple e) (set_lock (apple e) x p) \<and>
   set_lock (arm e'') y b = set_lock (arm e'') 0 b \<and>
   get_lock (arm e'') (set_lock (arm e'') y b) = b \<and>
   (\<forall>i. i \<noteq> 1 \<longrightarrow> load_byte e'' i (set_lock (arm e'') y b) = 0) \<and>
   \<not> is_initialized (arm e'') (set_lock (arm e'') y b) \<and>
   set_lock (generic e') x b' = set_lock (generic e') 0 b' \<and>
   get_lock (generic e') (set_lock (generic e') x b') = b' \<and>
   (\<forall>i. i \<noteq> 1 \<longrightarrow> load_byte e' i (set_lock (generic e') x b') = 0) \<and>
   \<not> is_initialized (generic e') (set_lock (generic e') x b')"
proof -
  have duetto: "set_lock duetto y d = d" "is_initialized duetto (set_lock duetto y d) = bit d 0"
    by (simp_all add: duetto_def set_lock_duetto_def is_initialized_bit_iff)
  have half: "(case e of LittleEndian \<Rightarrow> take_bit 32 (set_lock (apple e) x p)
            | BigEndian \<Rightarrow> drop_bit 32 (set_lock (apple e) x p)) = 0"
    using apple_set_lock_half [of e x p] by (cases e; simp add: apple_def)
  have bytes: "\<forall>i. i \<noteq> 1 \<longrightarrow> load_byte e'' i (set_lock (arm e'') y b) = 0"
    "\<forall>i. i \<noteq> 1 \<longrightarrow> load_byte e' i (set_lock (generic e') x b') = 0"
    by (simp_all add: arm_def generic_def union_other_bytes_32 union_other_bytes_64)
  from duetto half bytes show ?thesis
    by (intro conjI get_set_lock set_lock_any set_lock_flag_clear)
qed

theorem set_lock_rewrites_guard_witness:
  "(0::nat) \<noteq> 1 \<and> is_initialized (arm LittleEndian) 1 \<and>
   load_byte LittleEndian 0 (set_lock (arm LittleEndian) 1 True) = 0 \<and>
   \<not> is_initialized (arm LittleEndian) (set_lock (arm LittleEndian) 1 True)"
proof -
  have "is_initialized (arm LittleEndian) 1" by (simp add: arm_def is_initialized_bit_def)
  moreover from set_lock_rewrites_guard [where y = 1 and b = True and e'' = LittleEndian]
  have "\<forall>i. i \<noteq> 1 \<longrightarrow> load_byte LittleEndian i (set_lock (arm LittleEndian) 1 True) = 0"
    and "\<not> is_initialized (arm LittleEndian) (set_lock (arm LittleEndian) 1 True)"
    by blast+
  ultimately show ?thesis by simp
qed

section \<open>What release leaves\<close>

lemma released_32: "released duetto = 1" "released (arm e) = 1"
  by (simp_all add: released_def duetto_def arm_def set_initialized_bit_def)

lemma beside_flag_32_clear: "beside_flag_32 0 = 0" "beside_flag_32 1 = 0"
  by (simp_all add: beside_flag_32_def)

lemma beside_flag_64_clear:
  "beside_flag_64 e 0 = 0" "beside_flag_64 e (set_initialized_byte e 0) = 0"
  by (rule bit_word_eqI, cases e;
      simp add: beside_flag_64_def set_initialized_byte_def bit_store_byte byte_shift_def)+

lemma release_sets_flagI:
  "is_initialized T (released T) \<Longrightarrow> beside (released T) = 0 \<Longrightarrow> beside 0 = 0 \<Longrightarrow>
   release_sets_flag T beside env g"
  by (simp add: release_sets_flag_def release_ok release_stores_def released_def)

lemma release_clears_lockI:
  "\<not> lock_nonzero T (get_lock T (released T)) \<Longrightarrow> \<not> lock_nonzero T (get_lock T 0) \<Longrightarrow>
   release_clears_lock T g"
  by (simp add: release_clears_lock_def release_stores_def released_def)

lemma release_sets_flag_all:
  "release_sets_flag duetto beside_flag_32 a x"
  "release_sets_flag (apple e) (beside_flag_64 e) b y"
  "release_sets_flag (arm e) beside_flag_32 c z"
  "release_sets_flag (generic e) (beside_flag_64 e) k w"
proof -
  show "release_sets_flag duetto beside_flag_32 a x"
    by (rule release_sets_flagI [OF released_flag(1)])
      (simp_all add: released_32 beside_flag_32_clear)
  show "release_sets_flag (arm e) beside_flag_32 c z"
    by (rule release_sets_flagI [OF released_flag(3)])
      (simp_all add: released_32 beside_flag_32_clear)
  have r: "released (apple e) = set_initialized_byte e 0"
    "released (generic e) = set_initialized_byte e 0"
    by (simp_all add: released_def apple_def generic_def)
  show "release_sets_flag (apple e) (beside_flag_64 e) b y"
    by (rule release_sets_flagI [OF released_flag(2)]) (simp_all add: r beside_flag_64_clear)
  show "release_sets_flag (generic e) (beside_flag_64 e) k w"
    by (rule release_sets_flagI [OF released_flag(4)]) (simp_all add: r beside_flag_64_clear)
qed

lemma release_clears_lock_all:
  "release_clears_lock (apple e) y" "release_clears_lock (arm e) z"
  "release_clears_lock (generic e) w"
  by (simp_all add: release_clears_lockI released_lock lock_zero)

text \<open>
  C4. On every build, whatever the guard held: \<^verbatim>\<open>__cxa_guard_release\<close> returns (its
  mutex and broadcast calls taken to succeed) with the initialized flag set and every
  bit of the guard beside the flag clear, the lock bits among them; and of the values
  that the guard takes while release holds the mutex, first all-zero and then final,
  none has the flag set with a bit beside it set. The final guard is the word 1 on
  the 32-bit builds and has the first byte 1 on the 64-bit builds. On the Apple, arm
  and generic builds the same holds of the lock as \<^verbatim>\<open>get_lock\<close> reads it: clear after
  release, and never set together with the flag during release. (Under \<^verbatim>\<open>__DUETTO__\<close>
  \<^verbatim>\<open>get_lock\<close> returns the whole guard, the flag included, so that the lock bits there
  are the bits beside the flag.)
\<close>

theorem release_sets_flag_clears_lock:
  "release_sets_flag duetto beside_flag_32 a x \<and> released duetto = 1 \<and>
   release_sets_flag (apple e) (beside_flag_64 e) b y \<and> release_clears_lock (apple e) y \<and>
   first_char (apple e) (released (apple e)) = 1 \<and>
   release_sets_flag (arm e'') beside_flag_32 c z \<and> release_clears_lock (arm e'') z \<and>
   released (arm e'') = 1 \<and>
   release_sets_flag (generic e') (beside_flag_64 e') k w \<and>
   release_clears_lock (generic e') w \<and>
   first_char (generic e') (released (generic e')) = 1"
  by (intro conjI release_sets_flag_all release_clears_lock_all released_32 first_char_released)

theorem release_sets_flag_clears_lock_witness:
  "pthread_ok (all_succeed [] :: uint64_t pthread_env) \<and>
   fst (cxa_guard_release (generic BigEndian) (all_succeed []) 0x0001000000000000)
     = Returned () 0x0100000000000000 \<and>
   0x0100000000000000 \<in> set (release_stores (generic BigEndian) 0x0001000000000000) \<and>
   is_initialized (generic BigEndian) 0x0100000000000000 \<and>
   beside_flag_64 BigEndian 0x0100000000000000 = 0 \<and>
   \<not> lock_nonzero (generic BigEndian) (get_lock (generic BigEndian) 0x0100000000000000)"
proof -
  let ?T = "generic BigEndian"
  let ?e = "all_succeed [] :: uint64_t pthread_env"
  have ok: "pthread_ok ?e" by (simp add: pthread_ok_def all_succeed_def)
  have rel: "released ?T = 0x0100000000000000"
    by (simp add: released_def generic_def set_initialized_byte_def store_byte_def byte_shift_def)
  have m: "released ?T \<in> set (release_stores ?T 0x0001000000000000)"
    by (simp add: release_stores_def released_def)
  note all = release_sets_flag_clears_lock
    [where e' = BigEndian and k = ?e and w = "0x0001000000000000"]
  have "release_sets_flag ?T (beside_flag_64 BigEndian) ?e 0x0001000000000000"
    by (rule all [THEN conjunct2, THEN conjunct2, THEN conjunct2, THEN conjunct2,
          THEN conjunct2, THEN conjunct2, THEN conjunct2, THEN conjunct2, THEN conjunct1])
  then have r: "pthread_ok ?e \<longrightarrow>
        fst (cxa_guard_release ?T ?e 0x0001000000000000) = Returned () (released ?T)"
    and f: "is_initialized ?T (released ?T)"
    and b: "\<forall>v \<in> set (release_stores ?T 0x0001000000000000).
        is_initialized ?T v \<longrightarrow> beside_flag_64 BigEndian v = 0"
    unfolding release_sets_flag_def by blast+
  from r ok have r': "fst (cxa_guard_release ?T ?e 0x0001000000000000) = Returned () (released ?T)"
    by (rule mp)
  from b m f have b': "beside_flag_64 BigEndian (released ?T) = 0" by blast
  have "release_clears_lock ?T 0x0001000000000000"
    by (rule all [THEN conjunct2, THEN conjunct2, THEN conjunct2, THEN conjunct2,
          THEN conjunct2, THEN conjunct2, THEN conjunct2, THEN conjunct2, THEN conjunct2,
          THEN conjunct1])
  then have l: "\<not> lock_nonzero ?T (get_lock ?T (released ?T))"
    unfolding release_clears_lock_def by (elim conjE)
  from ok r' m f b' l show ?thesis unfolding rel by (intro conjI)
qed

section \<open>What acquire writes\<close>

lemma acquire_claim_cases:
  "acquire_claim T g = Return r g' \<Longrightarrow>
   r = 0 \<and> g' = g \<or> r = 1 \<and> first_char T g = 0 \<and> g' = set_lock T g (lock_true T)"
  by (auto simp add: acquire_claim_def split: if_splits)

lemma acquire_loop_cases:
  "acquire_loop T g = Return r g' \<Longrightarrow>
   r = 0 \<and> g' = g \<or> r = 1 \<and> first_char T g = 0 \<and> g' = set_lock T g (lock_true T)"
  by (auto simp add: acquire_loop_def split: if_splits dest: acquire_claim_cases)

lemma acquire_enter_cases:
  "acquire_enter T tid g = Return r g' \<Longrightarrow>
   r = 0 \<and> g' = g \<or> r = 1 \<and> first_char T g = 0 \<and> g' = granted T tid g"
  by (auto simp add: acquire_enter_def granted_def lock_value_def Let_def split: if_splits
      dest: acquire_claim_cases acquire_loop_cases)

lemma acquire_wake_cases:
  "acquire_wake T tid g = Return r g' \<Longrightarrow>
   r = 0 \<and> g' = g \<or>
   r = 1 \<and> (if stores_thread_id T then \<not> is_initialized T g else first_char T g = 0) \<and>
     g' = granted T tid g"
  by (auto simp add: acquire_wake_def granted_def lock_value_def Let_def split: if_splits
      dest: acquire_loop_cases)

lemma acquire_wait_found:
  "acquire_wait T tid ws = (Return r g', l) \<Longrightarrow>
   0 < waits_done l \<and> waits_done l \<le> length ws \<and>
   acquire_wake T tid (snd (ws ! (waits_done l - 1))) = Return r g'"
proof (induction ws arbitrary: l)
  case Nil
  then show ?case by simp
next
  case (Cons w ws)
  obtain rc g where w: "w = (rc, g)" by (cases w)
  with Cons.prems have rc: "rc = 0" by (auto split: if_splits)
  show ?case
  proof (cases "acquire_wake T tid g")
    case (Return r0 g0)
    with Cons.prems w rc show ?thesis by (auto simp add: waits_done_def)
  next
    case Wait
    with Cons.prems w rc obtain l' where
      l': "acquire_wait T tid ws = (Return r g', l')" "l = (CondWait, 0) # l'"
      by (auto split: prod.splits)
    from Cons.IH [OF l'(1)] have
      "0 < waits_done l'" "waits_done l' \<le> length ws"
      "acquire_wake T tid (snd (ws ! (waits_done l' - 1))) = Return r g'"
      by simp_all
    moreover from l'(2) have "waits_done l = Suc (waits_done l')"
      by (simp add: waits_done_def)
    ultimately show ?thesis by (cases "waits_done l'") simp_all
  next
    case (AbortMessage m)
    with Cons.prems w rc show ?thesis by auto
  qed
qed

lemma acquire_locked_found:
  "acquire_locked T tid ws g = (Return r g', l) \<Longrightarrow>
   waits_done l = 0 \<and> acquire_enter T tid g = Return r g' \<or>
   0 < waits_done l \<and> waits_done l \<le> length ws \<and>
   acquire_wake T tid (snd (ws ! (waits_done l - 1))) = Return r g'"
  by (cases "acquire_enter T tid g")
    (auto simp add: acquire_locked_def waits_done_def dest: acquire_wait_found)

lemma acquire_found:
  "cxa_guard_acquire T tid env g = (Returned r g', l) \<Longrightarrow>
   acquire_enter T tid (found env l g) = Return r g' \<or>
   acquire_wake T tid (found env l g) = Return r g'"
proof (cases "uses_pthread T")
  case False
  assume "cxa_guard_acquire T tid env g = (Returned r g', l)"
  with False have "acquire_enter T tid g = Return r g'" "l = []"
    by (auto simp add: cxa_guard_acquire_def split: stretch.splits)
  then show ?thesis by (simp add: found_def waits_done_def)
next
  case True
  assume "cxa_guard_acquire T tid env g = (Returned r g', l)"
  with True obtain l0 where
    l0: "acquire_locked T tid (cond_wait_returns env) g = (Return r g', l0)"
    and l: "l = (MutexLock, 0) # l0 @ [(MutexUnlock, 0)]"
    by (auto simp add: cxa_guard_acquire_def split: if_splits prod.splits stretch.splits)
  from l have n: "waits_done l = waits_done l0" by (simp add: waits_done_def)
  from acquire_locked_found [OF l0] show ?thesis
  proof
    assume "waits_done l0 = 0 \<and> acquire_enter T tid g = Return r g'"
    with n show ?thesis by (simp add: found_def)
  next
    assume w: "0 < waits_done l0 \<and> waits_done l0 \<le> length (cond_wait_returns env) \<and>
      acquire_wake T tid (snd (cond_wait_returns env ! (waits_done l0 - 1))) = Return r g'"
    then obtain k where k: "waits_done l0 = Suc k" by (cases "waits_done l0") simp_all
    with w n have "found env l g = snd (cond_wait_returns env ! (waits_done l0 - 1))"
      by (simp add: found_def)
    with w show ?thesis by simp
  qed
qed

lemma acquire_found_cases:
  "cxa_guard_acquire T tid env g = (Returned r g', l) \<Longrightarrow>
   r = 0 \<and> g' = found env l g \<or>
   r = 1 \<and> g' = granted T tid (found env l g) \<and>
     (first_char T (found env l g) = 0 \<or>
      stores_thread_id T \<and> \<not> is_initialized T (found env l g))"
  by (drule acquire_found) (auto dest: acquire_enter_cases acquire_wake_cases split: if_splits)

lemma keeps_initialized_apart:
  "(\<And>g v. first_char T (set_lock T g v) = 0) \<Longrightarrow>
   (\<And>g v. \<not> is_initialized T (set_lock T g v)) \<Longrightarrow>
   (\<And>g. first_char T g = 0 \<Longrightarrow> \<not> is_initialized T g) \<Longrightarrow>
   (\<And>g. stores_thread_id T \<Longrightarrow> \<not> is_initialized T g \<Longrightarrow> first_char T g = 0) \<Longrightarrow>
   acquire_keeps_initialized T tid env g"
proof -
  assume a: "\<And>g v. first_char T (set_lock T g v) = 0"
    "\<And>g v. \<not> is_initialized T (set_lock T g v)"
    "\<And>g. first_char T g = 0 \<Longrightarrow> \<not> is_initialized T g"
    "\<And>g. stores_thread_id T \<Longrightarrow> \<not> is_initialized T g \<Longrightarrow> first_char T g = 0"
  show ?thesis
  proof (cases "cxa_guard_acquire T tid env g")
    case (Pair out l)
    show ?thesis
    proof (cases out)
      case (Returned r g')
      with Pair have "cxa_guard_acquire T tid env g = (Returned r g', l)" by simp
      from acquire_found_cases [OF this] a Pair Returned show ?thesis
        by (auto simp add: acquire_keeps_initialized_def granted_def)
    next
      case (Aborted m)
      with Pair show ?thesis by (simp add: acquire_keeps_initialized_def)
    next
      case Blocked
      with Pair show ?thesis by (simp add: acquire_keeps_initialized_def)
    qed
  qed
qed

lemma flag_reads_agree:
  "first_char (apple e) x = 0 \<longleftrightarrow> \<not> is_initialized (apple e) x"
  "first_char (generic e) x = 0 \<longleftrightarrow> \<not> is_initialized (generic e) x"
  "first_char (arm LittleEndian) y = 0 \<Longrightarrow> \<not> is_initialized (arm LittleEndian) y"
  "first_char duetto y = 0 \<Longrightarrow> \<not> is_initialized duetto y"
  by (simp_all add: apple_def generic_def arm_def duetto_def is_initialized_byte_def
      first_char_zero_bit)

lemma acquire_marks_duetto_all: "acquire_marks_duetto tid env g"
proof (cases "cxa_guard_acquire duetto tid env g")
  case (Pair out l)
  have l: "l = []" using Pair by (auto simp add: cxa_guard_acquire_def duetto_def split: stretch.splits)
  show ?thesis
  proof (cases out)
    case (Returned r g')
    with Pair have "cxa_guard_acquire duetto tid env g = (Returned r g', l)" by simp
    have "\<not> stores_thread_id duetto" by (simp add: duetto_def)
    with acquire_found_cases [OF \<open>cxa_guard_acquire duetto tid env g = (Returned r g', l)\<close>] l
    have "r = 0 \<and> g' = g \<or> r = 1 \<and> g' = granted duetto tid g \<and> first_char duetto g = 0"
      by (auto simp add: found_def waits_done_def)
    moreover have "granted duetto tid g = 1"
      by (simp add: granted_def lock_value_def duetto_def set_lock_duetto_def)
    moreover have "is_initialized duetto 1" by (simp add: duetto_def is_initialized_bit_def)
    ultimately show ?thesis using Pair Returned
      by (auto simp add: acquire_marks_duetto_def dest: flag_reads_agree(4))
  next
    case (Aborted m)
    with Pair show ?thesis by (simp add: acquire_marks_duetto_def)
  next
    case Blocked
    with Pair show ?thesis by (simp add: acquire_marks_duetto_def)
  qed
qed

lemma acquire_writes_lock_any: "acquire_writes_lock T tid env g"
proof (cases "cxa_guard_acquire T tid env g")
  case (Pair out l)
  show ?thesis
  proof (cases out)
    case (Returned r g')
    with Pair have "cxa_guard_acquire T tid env g = (Returned r g', l)" by simp
    from acquire_found_cases [OF this] Pair Returned show ?thesis
      by (auto simp add: acquire_writes_lock_def granted_def)
  next
    case (Aborted m)
    with Pair show ?thesis by (simp add: acquire_writes_lock_def)
  next
    case Blocked
    with Pair show ?thesis by (simp add: acquire_writes_lock_def)
  qed
qed

text \<open>
  C7 as stated fails under \<^verbatim>\<open>__DUETTO__\<close>: the call of \<^verbatim>\<open>__cxa_guard_acquire\<close> that
  returns 1 on the all-zero guard leaves the word 1, so the initialized bit was
  clear before the call and is set after it.
\<close>

theorem acquire_duetto_sets_initialized:
  "fst (cxa_guard_acquire duetto 0 (all_succeed []) 0) = Returned 1 1 \<and>
   \<not> is_initialized duetto 0 \<and> is_initialized duetto 1"
  by (simp add: cxa_guard_acquire_def acquire_enter_def acquire_claim_def duetto_def
      load_byte_zero set_lock_duetto_def is_initialized_bit_def)

text \<open>
  C7, as the code has it, of the calls of \<^verbatim>\<open>__cxa_guard_acquire\<close> that return. On every
  build, a call that returns 0 leaves the guard as it found it (at entry, or at the
  return of its last wait), and a call that returns 1 leaves the guard that
  \<^verbatim>\<open>set_lock\<close> makes of the one it found, with the caller's lock value. On the Apple,
  little-endian \<^verbatim>\<open>__arm__\<close> and generic builds the initialized flag, read as the first
  byte or through \<^verbatim>\<open>is_initialized\<close>, is after the call what the call found. Under
  \<^verbatim>\<open>__DUETTO__\<close> a call that returns 1 found the flag clear and leaves the word 1,
  with the flag set.
\<close>

theorem acquire_writes_lock_only:
  "acquire_writes_lock T tid env g \<and>
   acquire_marks_duetto d a x \<and>
   acquire_keeps_initialized (apple e) p b y \<and>
   acquire_keeps_initialized (arm LittleEndian) r c z \<and>
   acquire_keeps_initialized (generic e') q k w"
proof (intro conjI)
  show "acquire_writes_lock T tid env g" by (rule acquire_writes_lock_any)
  show "acquire_marks_duetto d a x" by (rule acquire_marks_duetto_all)
  show "acquire_keeps_initialized (apple e) p b y"
    by (rule keeps_initialized_apart) (simp_all add: set_lock_flag_clear flag_reads_agree)
  show "acquire_keeps_initialized (arm LittleEndian) r c z"
    by (rule keeps_initialized_apart)
      (simp_all add: set_lock_flag_clear flag_reads_agree, simp add: arm_def)
  show "acquire_keeps_initialized (generic e') q k w"
    by (rule keeps_initialized_apart) (simp_all add: set_lock_flag_clear flag_reads_agree)
qed

theorem acquire_writes_lock_only_witness:
  "cxa_guard_acquire (generic LittleEndian) True (all_succeed [(0, 1)]) 0x100
     = (Returned 0 1, [(MutexLock, 0), (CondWait, 0), (MutexUnlock, 0)]) \<and>
   found (all_succeed [(0, 1)]) [(MutexLock, 0), (CondWait, 0), (MutexUnlock, 0)]
     (0x100 :: uint64_t) = 1 \<and>
   is_initialized (generic LittleEndian) 1"
proof -
  let ?env = "all_succeed [(0, 1)] :: uint64_t pthread_env"
  let ?l = "[(MutexLock, 0), (CondWait, 0), (MutexUnlock, 0)]"
  have run: "cxa_guard_acquire (generic LittleEndian) True ?env 0x100 = (Returned 0 1, ?l)"
    by (simp add: all_succeed_def cxa_guard_acquire_def acquire_locked_def acquire_enter_def
        acquire_wake_def acquire_loop_def acquire_claim_def generic_def get_lock_union_def
        load_byte_def byte_shift_def)
  have "acquire_keeps_initialized (generic LittleEndian) True ?env 0x100"
    by (rule conjunct2 [OF conjunct2 [OF conjunct2 [OF conjunct2 [OF acquire_writes_lock_only]]]])
  then have "is_initialized (generic LittleEndian) 1 =
      is_initialized (generic LittleEndian) (found ?env ?l 0x100) \<and>
      first_char (generic LittleEndian) 1 =
      first_char (generic LittleEndian) (found ?env ?l 0x100) \<and>
      ((0::int) = 0 \<longrightarrow> 1 = found ?env ?l 0x100) \<and>
      ((0::int) \<noteq> 0 \<longrightarrow> 1 = granted (generic LittleEndian) True (found ?env ?l 0x100))"
    unfolding acquire_keeps_initialized_def run prod.case outcome.case .
  then have "(0::int) = 0 \<longrightarrow> 1 = found ?env ?l 0x100" by (elim conjE)
  then have f: "found ?env ?l 0x100 = 1" by (rule sym [OF mp]) (rule refl)
  have i: "is_initialized (generic LittleEndian) 1"
    by (simp add: generic_def is_initialized_byte_def load_byte_def byte_shift_def)
  from run f i show ?thesis by (intro conjI)
qed

section \<open>The states of a guard\<close>

lemma guard_state_set_lock:
  "(\<And>g v. get_lock T (set_lock T g v) = v) \<Longrightarrow>
   (\<And>g v. set_lock T g v = set_lock T 0 v) \<Longrightarrow>
   (\<And>g v. \<not> lock_nonzero T v \<Longrightarrow> set_lock T g v = 0) \<Longrightarrow>
   guard_state T (set_lock T g v) \<noteq> None"
proof -
  assume a: "\<And>g v. get_lock T (set_lock T g v) = v"
    "\<And>g v. set_lock T g v = set_lock T 0 v"
    "\<And>g v. \<not> lock_nonzero T v \<Longrightarrow> set_lock T g v = 0"
  show ?thesis
  proof (cases "lock_nonzero T v")
    case False
    with a(3) show ?thesis by (simp add: guard_state_def)
  next
    case True
    have "set_lock T g v = set_lock T (set_lock T g v) (get_lock T (set_lock T g v))"
      using a(1) a(2) [of g v] a(2) [of "set_lock T g v" v] by simp
    with True a(1) show ?thesis by (auto simp add: guard_state_def)
  qed
qed

lemma keeps_three_states_layout:
  "(\<And>g v. get_lock T (set_lock T g v) = v) \<Longrightarrow>
   (\<And>g v. set_lock T g v = set_lock T 0 v) \<Longrightarrow>
   (\<And>g v. \<not> lock_nonzero T v \<Longrightarrow> set_lock T g v = 0) \<Longrightarrow>
   released T \<noteq> 0 \<Longrightarrow>
   keeps_three_states T tid env g"
proof -
  assume a: "\<And>g v. get_lock T (set_lock T g v) = v"
    "\<And>g v. set_lock T g v = set_lock T 0 v"
    "\<And>g v. \<not> lock_nonzero T v \<Longrightarrow> set_lock T g v = 0"
    and r: "released T \<noteq> 0"
  have acq: "guard_state T g' \<noteq> None"
    if "cxa_guard_acquire T tid env g = (Returned r g', l)"
      "guard_state T (found env l g) \<noteq> None" for r g' l
    using acquire_found_cases [OF that(1)] that(2) guard_state_set_lock [OF a]
    by (auto simp add: granted_def)
  have rel: "guard_state T g' = Some INITIALIZED"
    if "fst (cxa_guard_release T env g) = Returned u g'" for u g'
  proof -
    from that have "g' = released T"
      by (auto simp add: cxa_guard_release_def release_stores_def released_def split: if_splits)
    with r show ?thesis by (simp add: guard_state_def)
  qed
  have ab: "guard_state T g' = Some UNINITIALIZED"
    if "fst (cxa_guard_abort T env g) = Returned u g'" for u g'
  proof -
    from that have "g' = 0" by (auto simp add: cxa_guard_abort_def split: if_splits)
    then show ?thesis by (simp add: guard_state_def)
  qed
  from acq rel ab show ?thesis
    by (auto simp add: keeps_three_states_def split: prod.splits outcome.splits)
qed

lemma set_lock_clear:
  "\<not> lock_nonzero duetto d \<Longrightarrow> set_lock duetto y d = 0"
  "\<not> lock_nonzero (apple e) p \<Longrightarrow> set_lock (apple e) x p = 0"
  "\<not> lock_nonzero (arm e) b \<Longrightarrow> set_lock (arm e) y b = 0"
  "\<not> lock_nonzero (generic e) b \<Longrightarrow> set_lock (generic e) x b = 0"
  by (simp_all add: duetto_def apple_def arm_def generic_def set_lock_duetto_def
      set_lock_apple_def set_lock_union_def store_byte_def split: byte_order.split)

lemma released_nonzero:
  "released duetto \<noteq> 0" "released (apple e) \<noteq> 0" "released (arm e) \<noteq> 0"
  "released (generic e) \<noteq> 0"
proof -
  have "is_initialized T (released T) \<Longrightarrow> \<not> is_initialized T 0 \<Longrightarrow> released T \<noteq> 0"
    for T :: "('g::zero, 'l) guard_config"
    by auto
  note n = this
  show "released duetto \<noteq> 0" by (rule n) (simp_all add: released_flag zero_flag)
  show "released (apple e) \<noteq> 0" by (rule n) (simp_all add: released_flag zero_flag)
  show "released (arm e) \<noteq> 0" by (rule n) (simp_all add: released_flag zero_flag)
  show "released (generic e) \<noteq> 0" by (rule n) (simp_all add: released_flag zero_flag)
qed

lemma keeps_three_states_all:
  "keeps_three_states duetto d a y" "keeps_three_states (apple e) p b x"
  "keeps_three_states (arm e) r c z" "keeps_three_states (generic e) q k w"
proof -
  show "keeps_three_states duetto d a y"
    by (rule keeps_three_states_layout)
      (simp_all add: get_set_lock set_lock_clear released_nonzero, rule set_lock_any)
  show "keeps_three_states (apple e) p b x"
    by (rule keeps_three_states_layout)
      (simp_all add: get_set_lock set_lock_clear released_nonzero, rule set_lock_any)
  show "keeps_three_states (arm e) r c z"
    by (rule keeps_three_states_layout)
      (simp_all add: get_set_lock set_lock_clear released_nonzero, rule set_lock_any)
  show "keeps_three_states (generic e) q k w"
    by (rule keeps_three_states_layout)
      (simp_all add: get_set_lock set_lock_clear released_nonzero, rule set_lock_any)
qed

lemma grant_in_progress_layout:
  "(\<And>g v. get_lock T (set_lock T g v) = v) \<Longrightarrow>
   (\<And>g v. set_lock T g v = set_lock T 0 v) \<Longrightarrow>
   (\<And>g v. first_char T (set_lock T g v) = 0) \<Longrightarrow>
   (\<And>g v. \<not> is_initialized T (set_lock T g v)) \<Longrightarrow>
   first_char T 0 = 0 \<Longrightarrow> \<not> lock_nonzero T (get_lock T 0) \<Longrightarrow>
   is_initialized T (released T) \<Longrightarrow>
   grant_in_progress T tid env"
proof -
  assume a: "\<And>g v. get_lock T (set_lock T g v) = v"
    "\<And>g v. set_lock T g v = set_lock T 0 v"
    and c: "\<And>g v. first_char T (set_lock T g v) = 0"
    "\<And>g v. \<not> is_initialized T (set_lock T g v)"
    and z: "first_char T 0 = 0" "\<not> lock_nonzero T (get_lock T 0)"
    and r: "is_initialized T (released T)"
  let ?g = "granted T tid 0"
  have st: "guard_state T ?g = Some IN_PROGRESS" if v: "lock_nonzero T (lock_value T tid)"
  proof -
    from v a(1) have l: "lock_nonzero T (get_lock T ?g)" by (simp add: granted_def)
    with z(2) have "?g \<noteq> 0" by auto
    moreover have "?g \<noteq> released T"
    proof
      assume "?g = released T"
      with r have "is_initialized T ?g" by simp
      with c(2) show False by (simp add: granted_def)
    qed
    moreover have "?g = set_lock T ?g (get_lock T ?g)"
      using a(1) a(2) [of ?g "lock_value T tid"] by (simp add: granted_def)
    ultimately show ?thesis using l by (simp add: guard_state_def)
  qed
  from st a(1) c z show ?thesis
    by (simp add: grant_in_progress_def acquire_zero) (simp add: granted_def)
qed

lemma grant_in_progress_all:
  "grant_in_progress (apple e) p b" "grant_in_progress (arm e) r c"
  "grant_in_progress (generic e) q k"
proof -
  show "grant_in_progress (apple e) p b"
    by (rule grant_in_progress_layout)
      (simp_all add: get_set_lock set_lock_flag_clear first_char_zero lock_zero
        released_flag, rule set_lock_any)
  show "grant_in_progress (arm e) r c"
    by (rule grant_in_progress_layout)
      (simp_all add: get_set_lock set_lock_flag_clear first_char_zero lock_zero
        released_flag, rule set_lock_any)
  show "grant_in_progress (generic e) q k"
    by (rule grant_in_progress_layout)
      (simp_all add: get_set_lock set_lock_flag_clear first_char_zero lock_zero
        released_flag, rule set_lock_any)
qed

lemma acquire_wait_held:
  "acquire_wake T tid g = Wait \<Longrightarrow> \<forall>w \<in> set ws. snd w = g \<Longrightarrow>
   acquire_wait T tid ws \<noteq> (Return r g', l)"
proof (induction ws arbitrary: l)
  case Nil
  show ?case by simp
next
  case (Cons w ws)
  obtain rc g0 where w: "w = (rc, g0)" by (cases w)
  with Cons.prems have g0: "g0 = g" by simp
  from Cons have "acquire_wait T tid ws \<noteq> (Return r g', l')" for l' by simp
  with w g0 Cons.prems(1) show ?case by (auto split: prod.splits)
qed

lemma held_until_release_layout:
  "uses_pthread T \<Longrightarrow>
   (\<And>g v. get_lock T (set_lock T g v) = v) \<Longrightarrow>
   (\<And>g v. first_char T (set_lock T g v) = 0) \<Longrightarrow>
   held_until_release T tid tid' env"
proof -
  assume p: "uses_pthread T"
    and a: "\<And>g v. get_lock T (set_lock T g v) = v"
    and c: "\<And>g v. first_char T (set_lock T g v) = 0"
  let ?g = "granted T tid 0"
  have False
    if v: "lock_nonzero T (lock_value T tid)"
      and ws: "\<forall>w \<in> set (cond_wait_returns env). snd w = ?g"
      and ret: "returns (fst (cxa_guard_acquire T tid' env ?g))"
  proof -
    from v a have l: "lock_nonzero T (get_lock T ?g)" by (simp add: granted_def)
    then have wake: "acquire_wake T tid' ?g = Wait"
      by (simp add: acquire_wake_def acquire_loop_def)
    from l c p have enter: "acquire_enter T tid' ?g \<noteq> Return r g'" for r g'
      by (simp add: acquire_enter_def acquire_loop_def granted_def)
    from acquire_wait_held [OF wake ws]
    have wait: "acquire_wait T tid' (cond_wait_returns env) \<noteq> (Return r g', l)" for r g' l .
    from enter wait have "acquire_locked T tid' (cond_wait_returns env) ?g \<noteq> (Return r g', l)"
      for r g' l
      by (cases "acquire_enter T tid' ?g") (simp_all add: acquire_locked_def)
    with p ret show False
      by (auto simp add: cxa_guard_acquire_def split: if_splits prod.splits stretch.splits)
  qed
  then show ?thesis by (auto simp add: held_until_release_def)
qed

lemma held_until_release_all:
  "held_until_release (apple e) p p' b" "held_until_release (arm e) r r' c"
  "held_until_release (generic e) q q' k"
proof -
  show "held_until_release (apple e) p p' b"
    by (rule held_until_release_layout)
      (simp_all add: get_set_lock set_lock_flag_clear, simp add: apple_def)
  show "held_until_release (arm e) r r' c"
    by (rule held_until_release_layout)
      (simp_all add: get_set_lock set_lock_flag_clear, simp add: arm_def)
  show "held_until_release (generic e) q q' k"
    by (rule held_until_release_layout)
      (simp_all add: get_set_lock set_lock_flag_clear, simp add: generic_def)
qed

text \<open>
  C3 as stated fails under \<^verbatim>\<open>__DUETTO__\<close>: the guard that \<^verbatim>\<open>__cxa_guard_acquire\<close>
  leaves when it returns 1 on the all-zero guard is the word 1, whose initialized
  bit is set; it is the guard that \<^verbatim>\<open>__cxa_guard_release\<close> leaves.
\<close>

theorem grant_duetto_reads_initialized:
  "fst (cxa_guard_acquire duetto 0 (all_succeed []) 0) = Returned 1 1 \<and>
   is_initialized duetto 1 \<and> guard_state duetto 1 = Some INITIALIZED"
  by (simp add: cxa_guard_acquire_def acquire_enter_def acquire_claim_def duetto_def
      load_byte_zero set_lock_duetto_def is_initialized_bit_def guard_state_def released_def
      set_initialized_bit_def)

text \<open>
  C3, as the code has it. On every build each entry point takes a guard that is
  all-zero, granted (a set lock and nothing else) or released to a guard that is one
  of the three. On the Apple, arm (either byte order) and generic builds,
  \<^verbatim>\<open>__cxa_guard_acquire\<close> returning 1 on an all-zero guard leaves it in progress, lock
  field set and initialized flag clear (on Apple the lock is the caller's identity,
  taken nonzero),
  and while the guard stays so no call of \<^verbatim>\<open>__cxa_guard_acquire\<close> returns, so that
  only release or abort by the grantee ends that state. Under \<^verbatim>\<open>__DUETTO__\<close> the
  granted guard is the word 1, the same as the released one, with the initialized
  bit set.
\<close>

theorem guard_states_kept:
  "grant_in_progress (apple e) p b \<and> held_until_release (apple e) p p' b' \<and>
   keeps_three_states (apple e) p'' b'' x \<and>
   grant_in_progress (arm e'') r c \<and> held_until_release (arm e'') r r' c' \<and>
   keeps_three_states (arm e'') r'' c'' y \<and>
   grant_in_progress (generic e') q k \<and> held_until_release (generic e') q q' k' \<and>
   keeps_three_states (generic e') q'' k'' x' \<and>
   keeps_three_states duetto d a y' \<and>
   fst (cxa_guard_acquire duetto d' a' 0) = Returned 1 1 \<and>
   released duetto = 1 \<and> is_initialized duetto 1"
proof -
  have run: "fst (cxa_guard_acquire duetto d' a' 0) = Returned 1 1"
    by (simp add: cxa_guard_acquire_def acquire_enter_def acquire_claim_def duetto_def
        load_byte_zero set_lock_duetto_def)
  have flag: "is_initialized duetto 1" by (simp add: duetto_def is_initialized_bit_def)
  show ?thesis
    by (simp only: grant_in_progress_all held_until_release_all keeps_three_states_all
        released_32 run flag simp_thms)
qed

theorem guard_states_kept_witness:
  "pthread_ok (all_succeed [] :: uint32_t pthread_env) \<and>
   lock_nonzero (arm LittleEndian) (lock_value (arm LittleEndian) False) \<and>
   granted (arm LittleEndian) False 0 = 0x100 \<and>
   fst (cxa_guard_acquire (arm LittleEndian) False (all_succeed []) 0) = Returned 1 0x100 \<and>
   guard_state (arm LittleEndian) 0x100 = Some IN_PROGRESS \<and>
   get_lock (arm LittleEndian) 0x100 \<and> \<not> is_initialized (arm LittleEndian) 0x100 \<and>
   \<not> returns (fst (cxa_guard_acquire (arm LittleEndian) True (all_succeed [(0, 0x100), (0, 0x100)]) 0x100))"
proof -
  let ?e = "all_succeed [] :: uint32_t pthread_env"
  let ?w = "all_succeed [(0, 0x100), (0, 0x100)] :: uint32_t pthread_env"
  have ok: "pthread_ok ?e" by (simp add: pthread_ok_def all_succeed_def)
  have lv: "lock_nonzero (arm LittleEndian) (lock_value (arm LittleEndian) False)" by (simp add: lock_value_def arm_def)
  have g: "granted (arm LittleEndian) False 0 = 0x100"
    by (simp add: granted_def lock_value_def arm_def set_lock_union_def store_byte_def
        byte_shift_def)
  have ws: "\<forall>w \<in> set (cond_wait_returns ?w). snd w = granted (arm LittleEndian) False 0"
    unfolding g by (simp add: all_succeed_def)
  note all = guard_states_kept
    [where e'' = LittleEndian and r = False and c = ?e and r' = True and c' = ?w]
  have "grant_in_progress (arm LittleEndian) False ?e"
    by (rule all [THEN conjunct2, THEN conjunct2, THEN conjunct2, THEN conjunct1])
  with ok lv have
    "fst (cxa_guard_acquire (arm LittleEndian) False ?e 0) = Returned 1 (granted (arm LittleEndian) False 0)"
    "guard_state (arm LittleEndian) (granted (arm LittleEndian) False 0) = Some IN_PROGRESS"
    "lock_nonzero (arm LittleEndian) (get_lock (arm LittleEndian) (granted (arm LittleEndian) False 0))"
    "\<not> is_initialized (arm LittleEndian) (granted (arm LittleEndian) False 0)"
    unfolding grant_in_progress_def by blast+
  then have a: "fst (cxa_guard_acquire (arm LittleEndian) False ?e 0) = Returned 1 0x100"
    "guard_state (arm LittleEndian) 0x100 = Some IN_PROGRESS"
    "get_lock (arm LittleEndian) 0x100" "\<not> is_initialized (arm LittleEndian) 0x100"
    unfolding g by (simp_all add: arm_def)
  have "held_until_release (arm LittleEndian) False True ?w"
    by (rule all [THEN conjunct2, THEN conjunct2, THEN conjunct2, THEN conjunct2,
          THEN conjunct1])
  with lv ws have "\<not> returns (fst (cxa_guard_acquire (arm LittleEndian) True ?w (granted (arm LittleEndian) False 0)))"
    unfolding held_until_release_def by blast
  then have b: "\<not> returns (fst (cxa_guard_acquire (arm LittleEndian) True ?w 0x100))" unfolding g .
  from ok lv g a b show ?thesis by (intro conjI)
qed

section \<open>The race\<close>

lemma race_inv_init: "race_inv T tids (init (length tids))"
  by (simp add: race_inv_def init_def)

lemma race_inv_heldI:
  "length (threads s) = length tids \<Longrightarrow> (\<not> uses_pthread T \<longrightarrow> Waiting \<notin> set (threads s)) \<Longrightarrow>
   k < length tids \<Longrightarrow> guard s = granted T (tids ! k) 0 \<Longrightarrow> threads s ! k = Got 1 \<Longrightarrow>
   others_wait (threads s) k \<Longrightarrow> race_inv T tids s"
  unfolding race_inv_def by blast

lemma race_inv_overI:
  "length (threads s) = length tids \<Longrightarrow> (\<not> uses_pthread T \<longrightarrow> Waiting \<notin> set (threads s)) \<Longrightarrow>
   k < length tids \<Longrightarrow> guard s = released T \<Longrightarrow> threads s ! k = Released \<Longrightarrow>
   others_wait (threads s) k \<Longrightarrow> race_inv T tids s"
  unfolding race_inv_def by blast

lemma race_inv_cases:
  "race_inv T tids s \<Longrightarrow>
   guard s = 0 \<and> (\<forall>t \<in> set (threads s). t = Idle) \<or>
   (\<exists>k < length tids. guard s = granted T (tids ! k) 0 \<and> threads s ! k = Got 1 \<and>
      others_wait (threads s) k) \<or>
   (\<exists>k < length tids. guard s = released T \<and> threads s ! k = Released \<and>
      others_wait (threads s) k)"
  unfolding race_inv_def by blast

lemma set_update_cases: "x \<in> set (xs[i := y]) \<Longrightarrow> x = y \<or> x \<in> set xs"
  using set_update_subset_insert [of xs i y] by auto

lemma no_waiting_update:
  "P \<longrightarrow> Waiting \<notin> set ts \<Longrightarrow> t \<noteq> Waiting \<Longrightarrow> P \<longrightarrow> Waiting \<notin> set (ts[i := t])"
  by (auto dest: set_update_cases)

lemma others_wait_update:
  "others_wait ts k \<Longrightarrow> t \<in> {Idle, Waiting, Got 0} \<Longrightarrow> others_wait (ts[i := t]) k"
  unfolding others_wait_def
proof (intro allI impI)
  fix j
  assume a: "\<forall>j<length ts. j \<noteq> k \<longrightarrow> ts ! j \<in> {Idle, Waiting, Got 0}"
    and t: "t \<in> {Idle, Waiting, Got 0}" and j: "j < length (ts[i := t])" "j \<noteq> k"
  show "ts[i := t] ! j \<in> {Idle, Waiting, Got 0}"
  proof (cases "j = i")
    case True
    with j t show ?thesis by simp
  next
    case False
    with a j show ?thesis by simp
  qed
qed

lemma others_wait_holder:
  "others_wait ts k \<Longrightarrow> others_wait (ts[k := t]) k"
  by (simp add: others_wait_def)

lemma others_wait_all_idle: "\<forall>t \<in> set ts. t = Idle \<Longrightarrow> others_wait (ts[i := t']) i"
  by (simp add: others_wait_def)

lemma step_inv_call:
  assumes rdy: "race_ready T tids" and inv: "race_inv T tids s"
  shows "race_inv T tids (step T tids s (Call i))"
proof (cases "i < length (threads s) \<and> threads s ! i = Idle")
  case False
  with inv show ?thesis by auto
next
  case True
  from inv have len: "length (threads s) = length tids"
    and nw: "\<not> uses_pthread T \<longrightarrow> Waiting \<notin> set (threads s)"
    by (simp_all add: race_inv_def)
  from race_inv_cases [OF inv] consider
    (zero) "guard s = 0" "\<forall>t \<in> set (threads s). t = Idle"
    | (held) k where "k < length tids" "guard s = granted T (tids ! k) 0"
      "threads s ! k = Got 1" "others_wait (threads s) k"
    | (over) k where "k < length tids" "guard s = released T" "threads s ! k = Released"
      "others_wait (threads s) k"
    by blast
  then show ?thesis
  proof cases
    case zero
    from rdy zero(1) have
      "acquire_enter T (tids ! i) (guard s) = Return 1 (granted T (tids ! i) 0)"
      by (simp add: race_ready_def)
    with True have st: "step T tids s (Call i) =
        s\<lparr>guard := granted T (tids ! i) 0, threads := (threads s)[i := Got 1]\<rparr>"
      by (simp add: after_stretch_def)
    show ?thesis unfolding st
      using True len no_waiting_update [OF nw, of "Got 1" i]
        others_wait_all_idle [OF zero(2), of i "Got 1"]
      by (intro race_inv_heldI [where k = i]) simp_all
  next
    case held
    from True held(3) have ik: "i \<noteq> k" by auto
    with rdy True len held(1) have
      e: "acquire_enter T (tids ! i) (guard s) = Wait \<and> uses_pthread T \<or>
          acquire_enter T (tids ! i) (guard s) = Return 0 (guard s)"
      unfolding held(2) race_ready_def by auto
    from e show ?thesis
    proof
      assume w: "acquire_enter T (tids ! i) (guard s) = Wait \<and> uses_pthread T"
      with True have st: "step T tids s (Call i) = s\<lparr>threads := (threads s)[i := Waiting]\<rparr>"
        by (simp add: after_stretch_def)
      show ?thesis unfolding st
        using w len ik held others_wait_update [OF held(4), of Waiting i]
        by (intro race_inv_heldI [where k = k]) simp_all
    next
      assume "acquire_enter T (tids ! i) (guard s) = Return 0 (guard s)"
      with True have st: "step T tids s (Call i) =
          s\<lparr>guard := guard s, threads := (threads s)[i := Got 0]\<rparr>"
        by (simp add: after_stretch_def)
      show ?thesis unfolding st
        using len ik held others_wait_update [OF held(4), of "Got 0" i]
          no_waiting_update [OF nw, of "Got 0" i]
        by (intro race_inv_heldI [where k = k]) simp_all
    qed
  next
    case over
    from True over(3) have ik: "i \<noteq> k" by auto
    from rdy have "acquire_enter T (tids ! i) (guard s) = Return 0 (guard s)"
      unfolding over(2) race_ready_def by auto
    with True have st: "step T tids s (Call i) =
        s\<lparr>guard := guard s, threads := (threads s)[i := Got 0]\<rparr>"
      by (simp add: after_stretch_def)
    show ?thesis unfolding st
      using len ik over others_wait_update [OF over(4), of "Got 0" i]
        no_waiting_update [OF nw, of "Got 0" i]
      by (intro race_inv_overI [where k = k]) simp_all
  qed
qed

lemma step_inv_wake:
  assumes rdy: "race_ready T tids" and inv: "race_inv T tids s"
  shows "race_inv T tids (step T tids s (Wake i))"
proof (cases "i < length (threads s) \<and> threads s ! i = Waiting")
  case False
  with inv show ?thesis by auto
next
  case True
  from inv have len: "length (threads s) = length tids"
    and nw: "\<not> uses_pthread T \<longrightarrow> Waiting \<notin> set (threads s)"
    by (simp_all add: race_inv_def)
  from True have mem: "Waiting \<in> set (threads s)" by (auto simp add: in_set_conv_nth)
  with nw have p: "uses_pthread T" by auto
  from mem have "\<not> (\<forall>t \<in> set (threads s). t = Idle)" by auto
  with race_inv_cases [OF inv] consider
    (held) k where "k < length tids" "guard s = granted T (tids ! k) 0"
      "threads s ! k = Got 1" "others_wait (threads s) k"
    | (over) k where "k < length tids" "guard s = released T" "threads s ! k = Released"
      "others_wait (threads s) k"
    by blast
  then show ?thesis
  proof cases
    case held
    from True held(3) have ik: "i \<noteq> k" by auto
    with rdy True len held(1) have "acquire_wake T (tids ! i) (guard s) = Wait"
      unfolding held(2) race_ready_def by auto
    with True have "step T tids s (Wake i) = s\<lparr>threads := (threads s)[i := Waiting]\<rparr>"
      by (simp add: after_stretch_def)
    moreover have "(threads s)[i := Waiting] = threads s"
      using True by (simp add: list_update_same_conv)
    ultimately show ?thesis using inv by simp
  next
    case over
    from True over(3) have ik: "i \<noteq> k" by auto
    from rdy p have "acquire_wake T (tids ! i) (guard s) = Return 0 (guard s)"
      unfolding over(2) race_ready_def by auto
    with True have st: "step T tids s (Wake i) =
        s\<lparr>guard := guard s, threads := (threads s)[i := Got 0]\<rparr>"
      by (simp add: after_stretch_def)
    show ?thesis unfolding st
      using len ik over p others_wait_update [OF over(4), of "Got 0" i]
      by (intro race_inv_overI [where k = k]) simp_all
  qed
qed

lemma step_inv_release:
  assumes inv: "race_inv T tids s"
  shows "race_inv T tids (step T tids s (Release i))"
proof (cases "i < length (threads s) \<and> threads s ! i = Got 1")
  case False
  with inv show ?thesis by auto
next
  case True
  from inv have len: "length (threads s) = length tids"
    and nw: "\<not> uses_pthread T \<longrightarrow> Waiting \<notin> set (threads s)"
    by (simp_all add: race_inv_def)
  have one: "k = i" if "others_wait (threads s) k" for k
  proof (rule ccontr)
    assume "k \<noteq> i"
    with that True have "threads s ! i \<in> {Idle, Waiting, Got 0}"
      by (auto simp add: others_wait_def)
    with True show False by simp
  qed
  from True have "Got 1 \<in> set (threads s)" by (metis nth_mem)
  then have "\<not> (\<forall>t \<in> set (threads s). t = Idle)" by auto
  with race_inv_cases [OF inv] one have o: "others_wait (threads s) i" by blast
  from True have st: "step T tids s (Release i) =
      s\<lparr>guard := released T, threads := (threads s)[i := Released]\<rparr>"
    by (simp add: release_stores_def released_def)
  show ?thesis unfolding st
    using True len others_wait_holder [OF o, of Released]
      no_waiting_update [OF nw, of Released i]
    by (intro race_inv_overI [where k = i]) simp_all
qed

lemma step_inv:
  "race_ready T tids \<Longrightarrow> race_inv T tids s \<Longrightarrow> race_inv T tids (step T tids s ev)"
  by (cases ev) (simp_all only: step_inv_call step_inv_wake step_inv_release)

lemma run_inv:
  "race_ready T tids \<Longrightarrow> race_inv T tids s \<Longrightarrow> race_inv T tids (run T tids evs s)"
  by (induction evs arbitrary: s) (simp_all add: step_inv)

subsection \<open>Counting threads\<close>

lemma filter_none: "\<forall>j<length xs. \<not> P (xs ! j) \<Longrightarrow> length (filter P xs) = 0"
  by (auto simp add: filter_empty_conv in_set_conv_nth)

lemma filter_one:
  "k < length xs \<Longrightarrow> P (xs ! k) \<Longrightarrow> \<forall>j<length xs. j \<noteq> k \<longrightarrow> \<not> P (xs ! j) \<Longrightarrow>
   length (filter P xs) = 1"
proof -
  assume a: "k < length xs" "P (xs ! k)" "\<forall>j<length xs. j \<noteq> k \<longrightarrow> \<not> P (xs ! j)"
  then have "{i. i < length xs \<and> P (xs ! i)} = {k}" by auto
  then show ?thesis by (simp add: length_filter_conv_card)
qed

lemma filter_all_but_one:
  "k < length xs \<Longrightarrow> \<not> Q (xs ! k) \<Longrightarrow> \<forall>j<length xs. j \<noteq> k \<longrightarrow> Q (xs ! j) \<Longrightarrow>
   length (filter Q xs) = length xs - 1"
proof -
  assume a: "k < length xs" "\<not> Q (xs ! k)" "\<forall>j<length xs. j \<noteq> k \<longrightarrow> Q (xs ! j)"
  then have "{i. i < length xs \<and> Q (xs ! i)} = {..<length xs} - {k}" by auto
  with a(1) show ?thesis by (simp add: length_filter_conv_card)
qed

subsection \<open>What the invariant gives\<close>

lemma inv_phases:
  assumes inv: "race_inv T tids s"
  obtains
    (zero) "guard s = 0" "\<forall>j<length (threads s). threads s ! j = Idle"
  | (held) k where "k < length (threads s)" "guard s = granted T (tids ! k) 0"
      "threads s ! k = Got 1" "\<forall>j<length (threads s). j \<noteq> k \<longrightarrow> threads s ! j \<in> {Idle, Waiting, Got 0}"
  | (over) k where "k < length (threads s)" "guard s = released T"
      "threads s ! k = Released" "\<forall>j<length (threads s). j \<noteq> k \<longrightarrow> threads s ! j \<in> {Idle, Waiting, Got 0}"
proof -
  from inv have len: "length (threads s) = length tids" by (simp add: race_inv_def)
  from race_inv_cases [OF inv] show ?thesis
  proof (elim disjE conjE exE)
    assume "guard s = 0" "\<forall>t\<in>set (threads s). t = Idle"
    then show ?thesis by (intro zero) (simp_all add: all_set_conv_all_nth)
  next
    fix k assume "k < length tids" "guard s = granted T (tids ! k) 0" "threads s ! k = Got 1"
      "others_wait (threads s) k"
    with len show ?thesis by (intro held [of k]) (simp_all add: others_wait_def)
  next
    fix k assume "k < length tids" "guard s = released T" "threads s ! k = Released"
      "others_wait (threads s) k"
    with len show ?thesis by (intro over [of k]) (simp_all add: others_wait_def)
  qed
qed

lemma inv_at_most_one:
  assumes inv: "race_inv T tids s"
  shows "length (filter got_1 (threads s)) \<le> 1"
  using inv
proof (cases rule: inv_phases)
  case zero
  then have "length (filter got_1 (threads s)) = 0" by (intro filter_none) simp
  then show ?thesis by simp
next
  case (held k)
  from held(4) have "\<forall>j<length (threads s). j \<noteq> k \<longrightarrow> \<not> got_1 (threads s ! j)" by auto
  with held have "length (filter got_1 (threads s)) = 1"
    by (intro filter_one [where k = k]) simp_all
  then show ?thesis by simp
next
  case (over k)
  from over(4) have "\<forall>j<length (threads s). j \<noteq> k \<longrightarrow> \<not> got_1 (threads s ! j)" by auto
  with over have "length (filter got_1 (threads s)) = 1"
    by (intro filter_one [where k = k]) simp_all
  then show ?thesis by simp
qed

lemma inv_thread:
  assumes inv: "race_inv T tids s" and j: "j < length (threads s)"
  shows "threads s ! j \<in> {Idle, Waiting, Got 0, Got 1, Released}"
  using inv
proof (cases rule: inv_phases)
  case zero
  with j show ?thesis by simp
next
  case (held k)
  with j show ?thesis by (cases "j = k") auto
next
  case (over k)
  with j show ?thesis by (cases "j = k") auto
qed

lemma inv_no_dead: "race_inv T tids s \<Longrightarrow> Dead \<notin> set (threads s)"
proof
  assume inv: "race_inv T tids s" and "Dead \<in> set (threads s)"
  then obtain j where j: "j < length (threads s)" "threads s ! j = Dead"
    by (auto simp add: in_set_conv_nth)
  with inv_thread [OF inv j(1)] show False by simp
qed

lemma inv_released:
  assumes inv: "race_inv T tids s" and r: "Released \<in> set (threads s)"
  shows "guard s = released T"
proof -
  from r obtain j where j: "j < length (threads s)" "threads s ! j = Released"
    by (auto simp add: in_set_conv_nth)
  from inv show ?thesis
  proof (cases rule: inv_phases)
    case zero
    with j show ?thesis by simp
  next
    case (held k)
    with j show ?thesis by (cases "j = k") auto
  next
    case (over k)
    then show ?thesis by simp
  qed
qed

lemma inv_exactly_one:
  assumes inv: "race_inv T tids s" and ret: "all_returned s" and ne: "tids \<noteq> []"
  shows "exactly_one_grant s"
proof -
  from inv have len: "length (threads s) = length tids" by (simp add: race_inv_def)
  from ret have r: "got_0 (threads s ! j) \<or> got_1 (threads s ! j)" if "j < length (threads s)" for j
    using that by (simp add: all_returned_def)
  have "length (filter got_1 (threads s)) = 1 \<and>
      length (filter got_0 (threads s)) = length (threads s) - 1"
    if k: "k < length (threads s)" "got_1 (threads s ! k)" "\<not> got_0 (threads s ! k)"
      and o: "\<forall>j<length (threads s). j \<noteq> k \<longrightarrow> threads s ! j \<in> {Idle, Waiting, Got 0}" for k
  proof
    from o have "\<forall>j<length (threads s). j \<noteq> k \<longrightarrow> \<not> got_1 (threads s ! j)" by auto
    with k show "length (filter got_1 (threads s)) = 1"
      by (intro filter_one [where k = k]) simp_all
    from o r have "\<forall>j<length (threads s). j \<noteq> k \<longrightarrow> got_0 (threads s ! j)" by fastforce
    with k show "length (filter got_0 (threads s)) = length (threads s) - 1"
      by (intro filter_all_but_one [where k = k]) simp_all
  qed
  note one = this
  from inv show ?thesis
  proof (cases rule: inv_phases)
    case zero
    from ne len have "0 < length (threads s)" by simp
    with zero r [of 0] show ?thesis by simp
  next
    case (held k)
    with one [of k] show ?thesis by (simp add: exactly_one_grant_def)
  next
    case (over k)
    with one [of k] show ?thesis by (simp add: exactly_one_grant_def)
  qed
qed

subsection \<open>What a step does to a thread\<close>

lemma length_after_stretch [simp]: "length (threads (after_stretch s i st)) = length (threads s)"
  by (cases st) (simp_all add: after_stretch_def)

lemma nth_after_stretch_other [simp]:
  "j \<noteq> i \<Longrightarrow> threads (after_stretch s i st) ! j = threads s ! j"
  by (cases st) (simp_all add: after_stretch_def)

lemma nth_after_stretch_same:
  "i < length (threads s) \<Longrightarrow>
   threads (after_stretch s i st) ! i =
     (case st of Return r g' \<Rightarrow> Got r | Wait \<Rightarrow> Waiting | AbortMessage m \<Rightarrow> Dead)"
  by (cases st) (simp_all add: after_stretch_def)

lemma length_step [simp]: "length (threads (step T tids s ev)) = length (threads s)"
  by (cases ev) simp_all

lemma length_run [simp]: "length (threads (run T tids evs s)) = length (threads s)"
  by (induction evs arbitrary: s) simp_all

lemma step_other:
  "ev \<notin> {Call j, Wake j, Release j} \<Longrightarrow> threads (step T tids s ev) ! j = threads s ! j"
  by (cases ev) auto

lemma step_keeps_not_idle:
  "j < length (threads s) \<Longrightarrow> threads s ! j \<noteq> Idle \<Longrightarrow> threads (step T tids s ev) ! j \<noteq> Idle"
proof (cases ev)
  case (Call i)
  assume "j < length (threads s)" "threads s ! j \<noteq> Idle"
  with Call show ?thesis
    by (cases "i = j") (auto simp add: nth_after_stretch_same split: stretch.splits)
next
  case (Wake i)
  assume "j < length (threads s)" "threads s ! j \<noteq> Idle"
  with Wake show ?thesis
    by (cases "i = j") (auto simp add: nth_after_stretch_same split: stretch.splits)
next
  case (Release i)
  assume "j < length (threads s)" "threads s ! j \<noteq> Idle"
  with Release show ?thesis by (cases "i = j") auto
qed

lemma call_leaves_not_idle:
  "i < length (threads s) \<Longrightarrow> threads (step T tids s (Call i)) ! i \<noteq> Idle"
  by (auto simp add: nth_after_stretch_same split: stretch.splits)

lemma step_keeps_released:
  "j < length (threads s) \<Longrightarrow> threads s ! j = Released \<Longrightarrow>
   threads (step T tids s ev) ! j = Released"
proof (cases ev)
  case (Call i)
  assume "j < length (threads s)" "threads s ! j = Released"
  with Call show ?thesis by (cases "i = j") auto
next
  case (Wake i)
  assume "j < length (threads s)" "threads s ! j = Released"
  with Wake show ?thesis by (cases "i = j") auto
next
  case (Release i)
  assume "j < length (threads s)" "threads s ! j = Released"
  with Release show ?thesis by (cases "i = j") auto
qed

lemma step_keeps_released_mem:
  "Released \<in> set (threads s) \<Longrightarrow> Released \<in> set (threads (step T tids s ev))"
proof -
  assume "Released \<in> set (threads s)"
  then obtain j where j: "j < length (threads s)" "threads s ! j = Released"
    by (auto simp add: in_set_conv_nth)
  then have "threads (step T tids s ev) ! j = Released" by (rule step_keeps_released)
  with j(1) show ?thesis by (metis length_step nth_mem)
qed

lemma release_leaves_not_granted:
  "i < length (threads s) \<Longrightarrow> threads (step T tids s (Release i)) ! i \<noteq> Got 1"
  by auto

text \<open>A thread that has returned or been ended is no longer moved, but by its release.\<close>

lemma step_keeps_settled:
  "j < length (threads s) \<Longrightarrow> threads s ! j \<notin> {Idle, Waiting} \<Longrightarrow>
   threads (step T tids s ev) ! j \<notin> {Idle, Waiting}"
proof (cases ev)
  case (Call i)
  assume "j < length (threads s)" "threads s ! j \<notin> {Idle, Waiting}"
  with Call show ?thesis by (cases "i = j") auto
next
  case (Wake i)
  assume "j < length (threads s)" "threads s ! j \<notin> {Idle, Waiting}"
  with Wake show ?thesis by (cases "i = j") auto
next
  case (Release i)
  assume "j < length (threads s)" "threads s ! j \<notin> {Idle, Waiting}"
  with Release show ?thesis by (cases "i = j") auto
qed

lemma inv_one_holder:
  assumes inv: "race_inv T tids s"
    and j: "j < length (threads s)" "got_1 (threads s ! j)"
    and k: "k < length (threads s)" "got_1 (threads s ! k)"
  shows "j = k"
  using inv
proof (cases rule: inv_phases)
  case zero
  with j show ?thesis by simp
next
  case (held h)
  from held(4) j have "j = h" by (cases "j = h") auto
  moreover from held(4) k have "k = h" by (cases "k = h") auto
  ultimately show ?thesis by simp
next
  case (over h)
  from over(4) j have "j = h" by (cases "j = h") auto
  moreover from over(4) k have "k = h" by (cases "k = h") auto
  ultimately show ?thesis by simp
qed

lemma step_keeps_not_granted:
  assumes rdy: "race_ready T tids" and inv: "race_inv T tids s"
    and ni: "\<forall>i<length (threads s). threads s ! i \<noteq> Idle"
    and j: "j < length (threads s)" "threads s ! j \<noteq> Got 1"
  shows "threads (step T tids s ev) ! j \<noteq> Got 1"
proof (cases "ev = Wake j \<and> threads s ! j = Waiting")
  case False
  show ?thesis
  proof (cases ev)
    case (Call i)
    with ni j show ?thesis by auto
  next
    case (Wake i)
    with False j show ?thesis by (cases "i = j") auto
  next
    case (Release i)
    with j show ?thesis by (cases "i = j") auto
  qed
next
  case True
  let ?s = "step T tids s ev"
  from rdy inv have inv': "race_inv T tids ?s" by (rule step_inv)
  from inv obtain k where k: "k < length (threads s)" "got_1 (threads s ! k)"
  proof (cases rule: inv_phases)
    case zero
    with j True show ?thesis by simp
  next
    case (held k)
    with that [of k] show ?thesis by simp
  next
    case (over k)
    with that [of k] show ?thesis by simp
  qed
  with True have kj: "k \<noteq> j" by auto
  with True have "threads ?s ! k = threads s ! k" by auto
  with k have k': "k < length (threads ?s)" "got_1 (threads ?s ! k)" by simp_all
  show ?thesis
  proof
    assume "threads ?s ! j = Got 1"
    with j(1) have "j < length (threads ?s)" "got_1 (threads ?s ! j)" by simp_all
    from inv_one_holder [OF inv' this k'] kj show False by simp
  qed
qed

lemma wake_leaves_not_waiting:
  assumes rdy: "race_ready T tids" and inv: "race_inv T tids s"
    and rel: "Released \<in> set (threads s)" and i: "i < length (threads s)"
  shows "threads (step T tids s (Wake i)) ! i \<noteq> Waiting"
proof (cases "threads s ! i = Waiting")
  case False
  then show ?thesis by simp
next
  case True
  with i have "Waiting \<in> set (threads s)" by (metis nth_mem)
  with inv have p: "uses_pthread T" by (auto simp add: race_inv_def)
  from inv rel have "guard s = released T" by (rule inv_released)
  with rdy p have "acquire_wake T (tids ! i) (guard s) = Return 0 (guard s)"
    by (simp add: race_ready_def)
  with True i show ?thesis by (simp add: nth_after_stretch_same)
qed

subsection \<open>Runs\<close>

lemma run_append: "run T tids (evs @ evs') s = run T tids evs' (run T tids evs s)"
  by (induction evs arbitrary: s) simp_all

lemma run_stable:
  assumes I_step: "\<And>s ev. I s \<Longrightarrow> I (step T tids s ev)"
    and P_step: "\<And>s ev. I s \<Longrightarrow> P s \<Longrightarrow> P (step T tids s ev)"
  shows "I s \<Longrightarrow> P s \<Longrightarrow> I (run T tids evs s) \<and> P (run T tids evs s)"
  by (induction evs arbitrary: s) (simp_all add: I_step P_step)

lemma run_establish:
  assumes I_step: "\<And>s ev. I s \<Longrightarrow> I (step T tids s ev)"
    and P_step: "\<And>s ev j. I s \<Longrightarrow> P j s \<Longrightarrow> P j (step T tids s ev)"
    and est: "\<And>s i. I s \<Longrightarrow> i \<in> set ks \<Longrightarrow> P i (step T tids s (f i))"
  shows "I s \<Longrightarrow> set ks' \<subseteq> set ks \<Longrightarrow>
    I (run T tids (map f ks') s) \<and> (\<forall>i \<in> set ks'. P i (run T tids (map f ks') s))"
proof (induction ks' arbitrary: s)
  case Nil
  then show ?case by simp
next
  case (Cons k ks')
  let ?s = "step T tids s (f k)"
  from Cons.prems have I1: "I ?s" and P1: "P k ?s" by (simp_all add: I_step est)
  from Cons.IH [OF I1] Cons.prems(2) have
    rest: "I (run T tids (map f ks') ?s)" "\<forall>i \<in> set ks'. P i (run T tids (map f ks') ?s)"
    by simp_all
  from run_stable [where I = I and P = "P k", OF I_step P_step I1 P1]
  have "P k (run T tids (map f ks') ?s)" by simp
  with rest show ?case by simp
qed

subsection \<open>Completing a run\<close>

lemma calls_leave_none_idle:
  assumes rdy: "race_ready T tids" and inv: "race_inv T tids s"
  shows "race_inv T tids (run T tids (map Call [0..<length tids]) s) \<and>
    (\<forall>i<length tids. threads (run T tids (map Call [0..<length tids]) s) ! i \<noteq> Idle)"
proof -
  let ?I = "race_inv T tids"
  let ?P = "\<lambda>j s. j < length (threads s) \<and> threads s ! j \<noteq> Idle"
  have "?I (run T tids (map Call [0..<length tids]) s) \<and>
    (\<forall>i \<in> set [0..<length tids]. ?P i (run T tids (map Call [0..<length tids]) s))"
  proof (rule run_establish [where I = ?I and P = ?P and ks = "[0..<length tids]"])
    show "?I (step T tids s ev)" if "?I s" for s ev using rdy that by (rule step_inv)
    show "?P j (step T tids s ev)" if "?I s" "?P j s" for s ev j
      using that(2) by (simp add: step_keeps_not_idle)
    show "?P i (step T tids s (Call i))" if "?I s" "i \<in> set [0..<length tids]" for s i
    proof -
      from that have "i < length (threads s)" by (simp add: race_inv_def)
      then show ?thesis using call_leaves_not_idle [of i s T tids] by simp
    qed
    show "?I s" by (rule inv)
    show "set [0..<length tids] \<subseteq> set [0..<length tids]" by simp
  qed
  then show ?thesis by simp
qed

lemma releases_leave_released:
  assumes rdy: "race_ready T tids" and inv: "race_inv T tids s" and ne: "tids \<noteq> []"
    and ni: "\<forall>i<length tids. threads s ! i \<noteq> Idle"
  shows "race_inv T tids (run T tids (map Release [0..<length tids]) s) \<and>
    (\<forall>i<length tids. threads (run T tids (map Release [0..<length tids]) s) ! i \<noteq> Idle) \<and>
    Released \<in> set (threads (run T tids (map Release [0..<length tids]) s))"
proof -
  let ?I = "\<lambda>s. race_inv T tids s \<and> (\<forall>i<length (threads s). threads s ! i \<noteq> Idle)"
  let ?P = "\<lambda>j s. j < length (threads s) \<and> threads s ! j \<noteq> Got 1"
  let ?s = "run T tids (map Release [0..<length tids]) s"
  from inv have len: "length (threads s) = length tids" by (simp add: race_inv_def)
  have "?I ?s \<and> (\<forall>i \<in> set [0..<length tids]. ?P i ?s)"
  proof (rule run_establish [where I = ?I and P = ?P and ks = "[0..<length tids]"])
    show "?I (step T tids s ev)" if "?I s" for s ev
      using rdy that by (simp add: step_inv step_keeps_not_idle)
    show "?P j (step T tids s ev)" if "?I s" "?P j s" for s ev j
      using rdy that by (simp add: step_keeps_not_granted)
    show "?P i (step T tids s (Release i))" if "?I s" "i \<in> set [0..<length tids]" for s i
    proof -
      from that have "i < length (threads s)" by (simp add: race_inv_def)
      then show ?thesis using release_leaves_not_granted [of i s T tids] by simp
    qed
    show "?I s" using inv ni len by simp
    show "set [0..<length tids] \<subseteq> set [0..<length tids]" by simp
  qed
  then have inv': "race_inv T tids ?s"
    and ni': "\<forall>i<length (threads ?s). threads ?s ! i \<noteq> Idle"
    and ng: "\<forall>i<length tids. threads ?s ! i \<noteq> Got 1"
    by simp_all
  from inv' have len': "length (threads ?s) = length tids" by (simp add: race_inv_def)
  from inv' have "Released \<in> set (threads ?s)"
  proof (cases rule: inv_phases)
    case zero
    from ne len' have "0 < length (threads ?s)" by simp
    with zero ni' show ?thesis by blast
  next
    case (held k)
    with ng len' show ?thesis by simp
  next
    case (over k)
    then show ?thesis by (metis nth_mem)
  qed
  with inv' ni' len' show ?thesis by simp
qed

lemma wakes_leave_all_returned:
  assumes rdy: "race_ready T tids" and inv: "race_inv T tids s"
    and ni: "\<forall>i<length tids. threads s ! i \<noteq> Idle"
    and rel: "Released \<in> set (threads s)"
  shows "race_inv T tids (run T tids (map Wake [0..<length tids]) s) \<and>
    all_returned (run T tids (map Wake [0..<length tids]) s) \<and>
    Released \<in> set (threads (run T tids (map Wake [0..<length tids]) s))"
proof -
  let ?I = "\<lambda>s. race_inv T tids s \<and> (\<forall>i<length (threads s). threads s ! i \<noteq> Idle) \<and>
    Released \<in> set (threads s)"
  let ?P = "\<lambda>j s. j < length (threads s) \<and> threads s ! j \<notin> {Idle, Waiting}"
  let ?s = "run T tids (map Wake [0..<length tids]) s"
  from inv have len: "length (threads s) = length tids" by (simp add: race_inv_def)
  have "?I ?s \<and> (\<forall>i \<in> set [0..<length tids]. ?P i ?s)"
  proof (rule run_establish [where I = ?I and P = ?P and ks = "[0..<length tids]"])
    show "?I (step T tids s ev)" if "?I s" for s ev
      using rdy that by (simp add: step_inv step_keeps_not_idle step_keeps_released_mem)
    show "?P j (step T tids s ev)" if "?I s" "?P j s" for s ev j
      using that(2) step_keeps_settled [of j s T tids ev] by simp
    show "?P i (step T tids s (Wake i))" if "?I s" "i \<in> set [0..<length tids]" for s i
    proof -
      from that have i: "i < length (threads s)" by (simp add: race_inv_def)
      with that(1) have "threads s ! i \<noteq> Idle" by blast
      with i have "threads (step T tids s (Wake i)) ! i \<noteq> Idle"
        by (rule step_keeps_not_idle)
      moreover from rdy that(1) i have "threads (step T tids s (Wake i)) ! i \<noteq> Waiting"
        by (intro wake_leaves_not_waiting) simp_all
      ultimately show ?thesis using i by simp
    qed
    show "?I s" using inv ni rel len by simp
    show "set [0..<length tids] \<subseteq> set [0..<length tids]" by simp
  qed
  then have inv': "race_inv T tids ?s" and rel': "Released \<in> set (threads ?s)"
    and settled: "\<forall>i<length tids. threads ?s ! i \<notin> {Idle, Waiting}"
    by simp_all
  from inv' have len': "length (threads ?s) = length tids" by (simp add: race_inv_def)
  have "got_0 t \<or> got_1 t" if "t \<in> set (threads ?s)" for t
  proof -
    from that obtain j where j: "j < length (threads ?s)" "threads ?s ! j = t"
      by (auto simp add: in_set_conv_nth)
    from inv_thread [OF inv' j(1)] settled j len' show ?thesis by auto
  qed
  then have "all_returned ?s" by (simp add: all_returned_def)
  with inv' rel' show ?thesis by simp
qed

lemma finish_completes:
  assumes rdy: "race_ready T tids" and inv: "race_inv T tids s" and ne: "tids \<noteq> []"
  shows "race_inv T tids (run T tids (finish (length tids)) s) \<and>
    all_returned (run T tids (finish (length tids)) s) \<and>
    Released \<in> set (threads (run T tids (finish (length tids)) s))"
proof -
  let ?a = "run T tids (map Call [0..<length tids]) s"
  let ?b = "run T tids (map Release [0..<length tids]) ?a"
  from calls_leave_none_idle [OF rdy inv] have
    a: "race_inv T tids ?a" "\<forall>i<length tids. threads ?a ! i \<noteq> Idle" by simp_all
  from releases_leave_released [OF rdy a(1) ne a(2)] have
    b: "race_inv T tids ?b" "\<forall>i<length tids. threads ?b ! i \<noteq> Idle"
    "Released \<in> set (threads ?b)" by simp_all
  from wakes_leave_all_returned [OF rdy b] show ?thesis
    by (simp add: finish_def run_append)
qed

lemma races_once_ready:
  assumes rdy: "tids \<noteq> [] \<Longrightarrow> thread_ids_ok T tids \<Longrightarrow> race_ready T tids"
    and flag: "is_initialized T (released T)"
  shows "races_once T tids evs"
proof -
  have "length (filter got_1 (threads s)) \<le> 1 \<and> Dead \<notin> set (threads s) \<and>
      (all_returned s \<longrightarrow> exactly_one_grant s) \<and>
      (Released \<in> set (threads s) \<longrightarrow> guard s = released T \<and> is_initialized T (guard s)) \<and>
      all_returned s' \<and> exactly_one_grant s' \<and> Released \<in> set (threads s') \<and>
      is_initialized T (guard s')"
    if ne: "tids \<noteq> []" and ok: "thread_ids_ok T tids"
      and s: "s = run T tids evs (init (length tids))" and s': "s' = run T tids (finish (length tids)) s"
    for s s'
  proof -
    from ne ok have r: "race_ready T tids" by (rule rdy)
    from r race_inv_init have inv: "race_inv T tids s" unfolding s by (rule run_inv)
    from finish_completes [OF r inv ne] have inv': "race_inv T tids s'"
      and ret: "all_returned s'" and rel: "Released \<in> set (threads s')"
      unfolding s' by simp_all
    from inv' rel have "guard s' = released T" by (rule inv_released)
    with flag have "is_initialized T (guard s')" by simp
    moreover from inv' ret ne have "exactly_one_grant s'" by (rule inv_exactly_one)
    moreover have "Released \<in> set (threads s) \<longrightarrow>
        guard s = released T \<and> is_initialized T (guard s)"
      using inv_released [OF inv] flag by auto
    moreover have "all_returned s \<longrightarrow> exactly_one_grant s"
      using inv_exactly_one [OF inv _ ne] by blast
    ultimately show ?thesis
      using inv_at_most_one [OF inv] inv_no_dead [OF inv] ret rel by blast
  qed
  note main = this
  show ?thesis unfolding races_once_def Let_def
  proof (intro impI)
    assume "tids \<noteq> [] \<and> thread_ids_ok T tids"
    then have "tids \<noteq> []" "thread_ids_ok T tids" by simp_all
    then show "length (filter got_1 (threads (run T tids evs (init (length tids))))) \<le> 1 \<and>
      Dead \<notin> set (threads (run T tids evs (init (length tids)))) \<and>
      (all_returned (run T tids evs (init (length tids))) \<longrightarrow>
       exactly_one_grant (run T tids evs (init (length tids)))) \<and>
      (Released \<in> set (threads (run T tids evs (init (length tids)))) \<longrightarrow>
       guard (run T tids evs (init (length tids))) = released T \<and>
       is_initialized T (guard (run T tids evs (init (length tids))))) \<and>
      all_returned (run T tids (finish (length tids)) (run T tids evs (init (length tids)))) \<and>
      exactly_one_grant (run T tids (finish (length tids)) (run T tids evs (init (length tids)))) \<and>
      Released \<in> set (threads (run T tids (finish (length tids))
        (run T tids evs (init (length tids))))) \<and>
      is_initialized T (guard (run T tids (finish (length tids))
        (run T tids evs (init (length tids)))))"
      by (rule main) (rule refl)+
  qed
qed

subsection \<open>The builds\<close>

lemma race_ready_layout:
  assumes p: "uses_pthread T"
    and get_set: "\<And>g v. get_lock T (set_lock T g v) = v"
    and clear: "\<And>g v. first_char T (set_lock T g v) = 0"
    and zero: "first_char T 0 = 0" "\<not> lock_nonzero T (get_lock T 0)"
    and rel: "first_char T (released T) = 1" "is_initialized T (released T)"
      "\<not> lock_nonzero T (get_lock T (released T))"
    and ids: "thread_ids_ok T tids"
  shows "race_ready T tids"
proof -
  have held: "acquire_enter T (tids ! j) (granted T (tids ! k) 0) = Wait \<and>
      acquire_wake T (tids ! j) (granted T (tids ! k) 0) = Wait"
    if jk: "j < length tids" "k < length tids" "j \<noteq> k" for j k
  proof -
    let ?g = "granted T (tids ! k) 0"
    from ids jk(2) have "lock_nonzero T (lock_value T (tids ! k))"
      by (simp add: thread_ids_ok_def)
    with get_set have l: "lock_nonzero T (get_lock T ?g)" by (simp add: granted_def)
    have other: "get_lock T ?g \<noteq> tids ! j" if "stores_thread_id T"
    proof -
      from that ids have "distinct tids" by (simp add: thread_ids_ok_def)
      with jk have "tids ! k \<noteq> tids ! j" by (simp add: nth_eq_iff_index_eq)
      with that get_set show ?thesis by (simp add: granted_def lock_value_def)
    qed
    from clear have c: "first_char T ?g = 0" by (simp add: granted_def)
    from l c p other show ?thesis
      by (simp add: acquire_enter_def acquire_wake_def acquire_loop_def)
  qed
  have enter: "acquire_enter T t (released T) = Return 0 (released T)" for t
    using rel(1) by (simp add: acquire_enter_def)
  have wake: "acquire_wake T t (released T) = Return 0 (released T)" for t
    using rel by (simp add: acquire_wake_def acquire_loop_def acquire_claim_def)
  from held enter wake zero p show ?thesis
    by (simp add: race_ready_def acquire_enter_zero)
qed

lemma race_ready_duetto: "race_ready duetto tids"
proof -
  have g: "granted duetto t 0 = 1" for t
    by (simp add: granted_def lock_value_def duetto_def set_lock_duetto_def)
  have r: "released duetto = 1" by (simp add: released_def duetto_def set_initialized_bit_def)
  have f: "first_char duetto 1 = 1" by (simp add: duetto_def load_byte_def byte_shift_def)
  have enter: "acquire_enter duetto t 1 = Return 0 1" for t
    using f by (simp add: acquire_enter_def)
  have wake: "acquire_wake duetto t 1 = Wait" for t
    by (simp add: acquire_wake_def acquire_loop_def, simp add: duetto_def get_lock_duetto_def)
  have p: "\<not> uses_pthread duetto" by (simp add: duetto_def)
  from enter wake p show ?thesis
    by (simp add: race_ready_def g r acquire_enter_zero first_char_zero lock_zero)
qed

lemma race_ready_all:
  "thread_ids_ok (apple e) ps \<Longrightarrow> race_ready (apple e) ps"
  "thread_ids_ok (arm LittleEndian) rs \<Longrightarrow> race_ready (arm LittleEndian) rs"
  "thread_ids_ok (generic e) qs \<Longrightarrow> race_ready (generic e) qs"
proof -
  show "thread_ids_ok (apple e) ps \<Longrightarrow> race_ready (apple e) ps"
    by (rule race_ready_layout)
      (simp_all add: get_set_lock set_lock_flag_clear first_char_zero lock_zero
        first_char_released released_flag released_lock, simp add: apple_def)
  show "thread_ids_ok (arm LittleEndian) rs \<Longrightarrow> race_ready (arm LittleEndian) rs"
    by (rule race_ready_layout)
      (simp_all add: get_set_lock set_lock_flag_clear first_char_zero lock_zero
        first_char_released released_flag released_lock, simp add: arm_def)
  show "thread_ids_ok (generic e) qs \<Longrightarrow> race_ready (generic e) qs"
    by (rule race_ready_layout)
      (simp_all add: get_set_lock set_lock_flag_clear first_char_zero lock_zero
        first_char_released released_flag released_lock, simp add: generic_def)
qed

text \<open>
  On the \<^verbatim>\<open>__DUETTO__\<close>, Apple, little-endian \<^verbatim>\<open>__arm__\<close> and generic builds, for any
  number of threads (at least one) that race with \<^verbatim>\<open>__cxa_guard_acquire\<close> on an
  all-zero guard, under any interleaving: at most one call returns 1; when all calls
  have returned, exactly one has returned 1 and all the others 0; the race can always
  be run to that end, with the grantee's \<^verbatim>\<open>__cxa_guard_release\<close> done; and from that
  release on the guard has the initialized flag set for every caller to observe. (The
  pthread calls are taken to succeed; on Apple the thread identities are nonzero and
  distinct.)
\<close>

lemma races_once_builds:
  "races_once duetto ds evs \<and> races_once (apple e) ps evs' \<and>
   races_once (arm LittleEndian) rs evs'' \<and> races_once (generic e') qs evs'''"
  by (intro conjI races_once_ready race_ready_duetto race_ready_all released_flag)

lemma races_once_example:
  "[5, 6, 7 :: uint32_t] \<noteq> [] \<and> thread_ids_ok (apple LittleEndian) [5, 6, 7] \<and>
   run (apple LittleEndian) [5, 6, 7]
     [Call 1, Call 0, Call 2, Wake 0, Release 1, Wake 2, Wake 0] (init 3)
     = \<lparr>guard = 1, threads = [Got 0, Released, Got 0]\<rparr> \<and>
   all_returned (\<lparr>guard = 1, threads = [Got 0, Released, Got 0]\<rparr> :: uint64_t system) \<and>
   exactly_one_grant (\<lparr>guard = 1, threads = [Got 0, Released, Got 0]\<rparr> :: uint64_t system)"
proof -
  let ?evs = "[Call 1, Call 0, Call 2, Wake 0, Release 1, Wake 2, Wake 0]"
  let ?s = "\<lparr>guard = 1, threads = [Got 0, Released, Got 0]\<rparr> :: uint64_t system"
  have ne: "[5, 6, 7 :: uint32_t] \<noteq> []" by simp
  have ok: "thread_ids_ok (apple LittleEndian) [5, 6, 7]"
    by (simp add: thread_ids_ok_def lock_value_def apple_def)
  have i: "init 3 = (\<lparr>guard = 0, threads = [Idle, Idle, Idle]\<rparr> :: uint64_t system)"
    by (simp add: init_def numeral_3_eq_3)
  have r: "run (apple LittleEndian) [5, 6, 7] ?evs (init 3) = ?s"
    unfolding i
    by (simp add: after_stretch_def acquire_enter_def acquire_wake_def apple_def
        get_lock_apple_def set_lock_apple_def load_byte_def byte_shift_def release_stores_def
        set_initialized_byte_def store_byte_def is_initialized_byte_def)
  have ret: "all_returned ?s" by (simp add: all_returned_def)
  have "races_once (apple LittleEndian) [5, 6, 7] ?evs"
    by (rule races_once_builds [THEN conjunct2, THEN conjunct1])
  moreover have len: "length [5, 6, 7 :: uint32_t] = 3" by simp
  ultimately have "all_returned (run (apple LittleEndian) [5, 6, 7] ?evs (init 3)) \<longrightarrow>
      exactly_one_grant (run (apple LittleEndian) [5, 6, 7] ?evs (init 3))"
    using ne ok unfolding races_once_def Let_def len by blast
  with ret have "exactly_one_grant ?s" unfolding r by blast
  with ne ok r ret show ?thesis by (intro conjI)
qed

text \<open>
  C1 fails on the big-endian \<^verbatim>\<open>__arm__\<close> build, with two threads. Thread 0 calls
  \<^verbatim>\<open>__cxa_guard_acquire\<close> on the all-zero guard and is returned 1; thread 1 calls and
  waits; thread 0 runs \<^verbatim>\<open>__cxa_guard_release\<close>, which leaves the word 1, bit 0 in the
  last byte; thread 1 wakes, finds the lock byte and the first byte zero, stores the
  lock over the flag and is returned 1 as well. Both calls have returned 1, and the
  guard that thread 1 is left with has the initialized flag clear.
\<close>

theorem race_big_endian_arm_grants_twice:
  "run (arm BigEndian) [True, True] [Call 0, Call 1] (init 2)
     = \<lparr>guard = 0x10000, threads = [Got 1, Waiting]\<rparr> \<and>
   run (arm BigEndian) [True, True] [Call 0, Call 1, Release 0] (init 2)
     = \<lparr>guard = 1, threads = [Released, Waiting]\<rparr> \<and>
   run (arm BigEndian) [True, True] [Call 0, Call 1, Release 0, Wake 1] (init 2)
     = \<lparr>guard = 0x10000, threads = [Released, Got 1]\<rparr> \<and>
   filter got_1 [Released, Got 1] = [Released, Got 1] \<and>
   \<not> is_initialized (arm BigEndian) 0x10000"
proof -
  have i: "init 2 = (\<lparr>guard = 0, threads = [Idle, Idle]\<rparr> :: uint32_t system)"
    by (simp add: init_def numeral_2_eq_2)
  show ?thesis unfolding i
    by (simp add: after_stretch_def acquire_enter_def acquire_wake_def acquire_loop_def
        acquire_claim_def arm_def get_lock_union_def set_lock_union_def load_byte_def
        store_byte_def byte_shift_def release_stores_def set_initialized_bit_def
        is_initialized_bit_def)
qed

end
